theory Spec2Isabelle
  imports Main "HOL-Library.Sublist"
begin

section \<open>Strings\<close>

text \<open>
  The rules only compare strings with literals and call \<^verbatim>\<open>String.prototype.includes\<close>
  and \<^verbatim>\<open>String.prototype.endsWith\<close> with literal arguments. A string is the list of
  its code units.
\<close>

definition str_includes :: "string \<Rightarrow> string \<Rightarrow> bool" where
  "str_includes s searchString = sublist searchString s"

definition str_endsWith :: "string \<Rightarrow> string \<Rightarrow> bool" where
  "str_endsWith s searchString =
     (length searchString \<le> length s \<and>
      drop (length s - length searchString) s = searchString)"

section \<open>Syntax trees\<close>

text \<open>
  The ESTree node kinds the two rules read, with the fields they read. Every other node
  kind (\<^verbatim>\<open>Program\<close>, \<^verbatim>\<open>BlockStatement\<close>, \<^verbatim>\<open>AwaitExpression\<close>,
  \<^verbatim>\<open>SpreadElement\<close>, \<^verbatim>\<open>FunctionDeclaration\<close>, ...) is an \<open>OtherNode\<close> carrying its
  type name and its child nodes in traversal order.

  An import specifier's \<^verbatim>\<open>imported\<close> is an identifier or, since ES2022, a string literal;
  a literal has no \<^verbatim>\<open>name\<close> property.

  Fields that no rule reads and that hold no node a rule listens to are left out: the
  \<^verbatim>\<open>computed\<close> flag of a member expression or property, the name of a function
  expression, type annotations.
\<close>

datatype module_export_name = ExportIdentifier string | ExportLiteral string

datatype specifier =
    ImportSpecifier module_export_name string
  | ImportDefaultSpecifier string
  | ImportNamespaceSpecifier string

datatype node =
    Identifier string
  | Literal string
  | MemberExpression node node
  | CallExpression node "node list"
  | ObjectExpression "node list"
  | Property node node
  | ArrowFunctionExpression "node list" node
  | FunctionExpression "node list" node
  | ImportDeclaration "specifier list" string
  | OtherNode string "node list"

text \<open>
  \<open>MemberExpression object property\<close>, \<open>CallExpression callee arguments\<close>,
  \<open>ObjectExpression properties\<close>, \<open>Property key value\<close>, a function literal with its
  parameters and body, \<open>ImportDeclaration specifiers source.value\<close>.
\<close>

fun name_of :: "module_export_name \<Rightarrow> string option" where
  "name_of (ExportIdentifier n) = Some n"
| "name_of (ExportLiteral v) = None"

text \<open>
  The child nodes in the order the host's traversal enters them. The specifiers and the
  source literal of an import declaration hold no node kind that a rule listens to and
  are left out of the traversal.
\<close>

fun children :: "node \<Rightarrow> node list" where
  "children (Identifier n) = []"
| "children (Literal v) = []"
| "children (MemberExpression obj prop) = [obj, prop]"
| "children (CallExpression callee args) = callee # args"
| "children (ObjectExpression properties) = properties"
| "children (Property k v) = [k, v]"
| "children (ArrowFunctionExpression params body) = params @ [body]"
| "children (FunctionExpression params body) = params @ [body]"
| "children (ImportDeclaration specifiers src) = []"
| "children (OtherNode ty cs) = cs"

subsection \<open>Node identity and parent links\<close>

text \<open>
  The rules compare nodes by reference (\<^verbatim>\<open>parent.callee === node\<close>, a \<^verbatim>\<open>Map\<close> keyed by
  function nodes) and follow \<^verbatim>\<open>node.parent\<close>. A node's identity is its address: the
  child indices on the way from the root. A visited node comes with its address and with
  its parent chain, nearest parent first, each parent with its own address.
\<close>

type_synonym path = "nat list"
type_synonym parents = "(path \<times> node) list"
type_synonym visit = "path \<times> node \<times> parents"

definition callee_addr :: "path \<Rightarrow> path" where
  "callee_addr call = call @ [0]"

definition argument_addr :: "path \<Rightarrow> nat \<Rightarrow> path" where
  "argument_addr call i = call @ [Suc i]"

definition property_addr :: "path \<Rightarrow> nat \<Rightarrow> path" where
  "property_addr obj i = obj @ [i]"

definition value_addr :: "path \<Rightarrow> path" where
  "value_addr prop = prop @ [1]"

text \<open>The number of nodes of a tree, the measure of the traversal.\<close>

fun count :: "node \<Rightarrow> nat" where
  "count (Identifier n) = 1"
| "count (Literal v) = 1"
| "count (MemberExpression obj prop) = Suc (count obj + count prop)"
| "count (CallExpression callee args) = Suc (count callee + sum_list (map count args))"
| "count (ObjectExpression properties) = Suc (sum_list (map count properties))"
| "count (Property k v) = Suc (count k + count v)"
| "count (ArrowFunctionExpression params body) = Suc (sum_list (map count params) + count body)"
| "count (FunctionExpression params body) = Suc (sum_list (map count params) + count body)"
| "count (ImportDeclaration specifiers src) = 1"
| "count (OtherNode ty cs) = Suc (sum_list (map count cs))"

text \<open>The host's traversal: pre-order, children in order.\<close>

function visits :: "path \<Rightarrow> parents \<Rightarrow> node \<Rightarrow> visit list"
  and visits_children :: "path \<Rightarrow> parents \<Rightarrow> nat \<Rightarrow> node list \<Rightarrow> visit list"
where
  "visits a ps n = (a, n, ps) # visits_children a ((a, n) # ps) 0 (children n)"
| "visits_children a ps i [] = []"
| "visits_children a ps i (c # cs) = visits (a @ [i]) ps c @ visits_children a ps (Suc i) cs"
  by pat_completeness auto
termination
proof (relation "measures
    [\<lambda>x. case x of Inl (a, ps, n) \<Rightarrow> count n | Inr (a, ps, i, cs) \<Rightarrow> sum_list (map count cs),
     \<lambda>x. case x of Inl _ \<Rightarrow> 0 | Inr _ \<Rightarrow> 1]", goal_cases)
  case 1
  show ?case by simp
next
  case (2 a ps n)
  have "sum_list (map count (children n)) < count n" by (cases n) simp_all
  then show ?case by simp
next
  case (3 a ps i c cs)
  have "0 < count x" for x by (cases x) simp_all
  then show ?case by (cases cs) simp_all
next
  case (4 a ps i c cs)
  have "0 < count c" by (cases c) simp_all
  then show ?case by simp
qed

declare visits.simps [simp del]

definition traversal :: "node \<Rightarrow> visit list" where
  "traversal program = visits [] [] program"

definition visited :: "node \<Rightarrow> nat \<Rightarrow> visit" where
  "visited program k = traversal program ! k"

definition v_addr :: "visit \<Rightarrow> path" where
  "v_addr v = fst v"

definition v_node :: "visit \<Rightarrow> node" where
  "v_node v = fst (snd v)"

definition v_parents :: "visit \<Rightarrow> parents" where
  "v_parents v = snd (snd v)"

text \<open>
  Two notions for reasoning about the traversal. A node is entered \<open>earlier\<close> than
  another only if the other's address is no prefix of its own (a parent comes before its
  descendants). A parent chain is \<open>linked\<close> when each entry is the parent, in the tree,
  of the one before it.
\<close>

definition earlier :: "visit \<Rightarrow> visit \<Rightarrow> bool" where
  "earlier u v = (\<not> prefix (fst v) (fst u))"

fun linked :: "path \<Rightarrow> node \<Rightarrow> parents \<Rightarrow> bool" where
  "linked b m [] = (b = [])"
| "linked b m ((p, parent) # ps) =
     (\<exists>i. b = p @ [i] \<and> i < length (children parent) \<and> children parent ! i = m \<and>
          linked p parent ps)"

section \<open>Diagnostics and listeners\<close>

datatype messageId = useAuthenticatedQuery | useAuthenticatedMutation | useContextIdentity

record diagnostic =
  d_node :: path
  d_messageId :: messageId

text \<open>
  \<^verbatim>\<open>create(context)\<close> returns an object whose keys are node types. The host calls the
  listener stored under a node's type when it enters the node; a type without a listener
  is skipped. A listener reads and updates the variables its rule's \<^verbatim>\<open>create\<close> closed
  over, and the reports made through \<^verbatim>\<open>context.report\<close>: the state \<open>'st\<close>.
\<close>

record 'st listeners =
  onImportDeclaration :: "('st \<Rightarrow> visit \<Rightarrow> 'st) option"
  onCallExpression :: "('st \<Rightarrow> visit \<Rightarrow> 'st) option"
  onMemberExpression :: "('st \<Rightarrow> visit \<Rightarrow> 'st) option"

definition no_listeners :: "'st listeners" where
  "no_listeners = \<lparr>onImportDeclaration = None, onCallExpression = None,
     onMemberExpression = None\<rparr>"

definition call_listener :: "('st \<Rightarrow> visit \<Rightarrow> 'st) option \<Rightarrow> 'st \<Rightarrow> visit \<Rightarrow> 'st" where
  "call_listener l st v = (case l of None \<Rightarrow> st | Some h \<Rightarrow> h st v)"

fun dispatch :: "'st listeners \<Rightarrow> visit \<Rightarrow> 'st \<Rightarrow> 'st" where
  "dispatch ls (a, ImportDeclaration specifiers src, ps) st =
     call_listener (onImportDeclaration ls) st (a, ImportDeclaration specifiers src, ps)"
| "dispatch ls (a, CallExpression callee args, ps) st =
     call_listener (onCallExpression ls) st (a, CallExpression callee args, ps)"
| "dispatch ls (a, MemberExpression obj prop, ps) st =
     call_listener (onMemberExpression ls) st (a, MemberExpression obj prop, ps)"
| "dispatch ls (a, n, ps) st = st"

definition run :: "'st listeners \<Rightarrow> visit list \<Rightarrow> 'st \<Rightarrow> 'st" where
  "run ls vs st = fold (dispatch ls) vs st"

definition backslash :: char where
  "backslash = CHR 0x5C"

definition isAuthFile :: "string \<Rightarrow> bool" where
  "isAuthFile filename =
     (str_endsWith filename ''convex/auth.ts'' \<or>
      str_endsWith filename (''convex'' @ [backslash] @ ''auth.ts''))"

section \<open>Rule no-direct-query-mutation\<close>

record stateA =
  importsFromGeneratedServer :: "string \<rightharpoonup> string"
  reportsA :: "diagnostic list"

definition initA :: stateA where
  "initA = \<lparr>importsFromGeneratedServer = Map.empty, reportsA = []\<rparr>"

definition reportA :: "path \<Rightarrow> messageId \<Rightarrow> stateA \<Rightarrow> stateA" where
  "reportA a m st = st\<lparr>reportsA := reportsA st @ [\<lparr>d_node = a, d_messageId = m\<rparr>]\<rparr>"

fun set_import :: "specifier \<Rightarrow> stateA \<Rightarrow> stateA" where
  "set_import (ImportSpecifier imported localName) st =
     (case name_of imported of
        None \<Rightarrow> st
      | Some importedName \<Rightarrow>
          if importedName = ''query'' \<or> importedName = ''mutation''
          then st\<lparr>importsFromGeneratedServer :=
                 (importsFromGeneratedServer st)(localName \<mapsto> importedName)\<rparr>
          else st)"
| "set_import (ImportDefaultSpecifier localName) st = st"
| "set_import (ImportNamespaceSpecifier localName) st = st"

fun ImportDeclaration_A :: "stateA \<Rightarrow> visit \<Rightarrow> stateA" where
  "ImportDeclaration_A st (a, ImportDeclaration specifiers importSource, ps) =
     (if str_includes importSource ''_generated/server'' \<or>
         str_includes importSource ''convex/_generated/server''
      then fold set_import specifiers st
      else st)"
| "ImportDeclaration_A st (a, n, ps) = st"

text \<open>
  \<^verbatim>\<open>if (importedName)\<close> fails for a missing entry (and for the empty string, which
  neither comparison below would match).
\<close>

fun CallExpression_A :: "stateA \<Rightarrow> visit \<Rightarrow> stateA" where
  "CallExpression_A st (a, CallExpression (Identifier calleeName) args, ps) =
     (case importsFromGeneratedServer st calleeName of
        None \<Rightarrow> st
      | Some importedName \<Rightarrow>
          if importedName = ''query''
          then reportA (callee_addr a) useAuthenticatedQuery st
          else if importedName = ''mutation''
          then reportA (callee_addr a) useAuthenticatedMutation st
          else st)"
| "CallExpression_A st (a, n, ps) = st"

definition create_A :: "string \<Rightarrow> stateA listeners" where
  "create_A filename =
     (if isAuthFile filename then no_listeners
      else \<lparr>onImportDeclaration = Some ImportDeclaration_A,
            onCallExpression = Some CallExpression_A,
            onMemberExpression = None\<rparr>)"

definition ruleA :: "string \<Rightarrow> node \<Rightarrow> diagnostic list" where
  "ruleA filename program = reportsA (run (create_A filename) (traversal program) initA)"

text \<open>The rule's variables when the pass is about to enter its \<open>k\<close>-th node.\<close>

definition stateA_at :: "string \<Rightarrow> node \<Rightarrow> nat \<Rightarrow> stateA" where
  "stateA_at filename program k =
     run (create_A filename) (take k (traversal program)) initA"

section \<open>Rule no-getuseridentity-in-authenticated\<close>

record stateB =
  authenticatedImports :: "string set"
  authenticatedHandlerFunctions :: "path set"
  reportsB :: "diagnostic list"

definition initB :: stateB where
  "initB = \<lparr>authenticatedImports = {}, authenticatedHandlerFunctions = {}, reportsB = []\<rparr>"

definition reportB :: "path \<Rightarrow> messageId \<Rightarrow> stateB \<Rightarrow> stateB" where
  "reportB a m st = st\<lparr>reportsB := reportsB st @ [\<lparr>d_node = a, d_messageId = m\<rparr>]\<rparr>"

fun add_import :: "specifier \<Rightarrow> stateB \<Rightarrow> stateB" where
  "add_import (ImportSpecifier imported localName) st =
     (case name_of imported of
        None \<Rightarrow> st
      | Some importedName \<Rightarrow>
          if importedName = ''authenticatedQuery'' \<or> importedName = ''authenticatedMutation''
          then st\<lparr>authenticatedImports := insert localName (authenticatedImports st)\<rparr>
          else st)"
| "add_import (ImportDefaultSpecifier localName) st = st"
| "add_import (ImportNamespaceSpecifier localName) st = st"

fun ImportDeclaration_B :: "stateB \<Rightarrow> visit \<Rightarrow> stateB" where
  "ImportDeclaration_B st (a, ImportDeclaration specifiers importSource, ps) =
     (if importSource = ''./auth'' \<or> importSource = ''../auth'' \<or>
         str_includes importSource ''/auth'' \<or>
         importSource = ''./_generated/server'' \<or>
         str_includes importSource ''_generated/server''
      then fold add_import specifiers st
      else st)"
| "ImportDeclaration_B st (a, n, ps) = st"

fun is_function_literal :: "node \<Rightarrow> bool" where
  "is_function_literal (ArrowFunctionExpression params body) = True"
| "is_function_literal (FunctionExpression params body) = True"
| "is_function_literal n = False"

fun is_handler_property :: "node \<Rightarrow> bool" where
  "is_handler_property (Property (Identifier k) v) = (k = ''handler'')"
| "is_handler_property n = False"

text \<open>\<^verbatim>\<open>Array.prototype.find\<close>, which also tells where the element stands.\<close>

fun find_from :: "('a \<Rightarrow> bool) \<Rightarrow> nat \<Rightarrow> 'a list \<Rightarrow> (nat \<times> 'a) option" where
  "find_from P i [] = None"
| "find_from P i (x # xs) = (if P x then Some (i, x) else find_from P (Suc i) xs)"

fun mark_handler :: "path \<Rightarrow> nat \<times> node \<Rightarrow> stateB \<Rightarrow> stateB" where
  "mark_handler obj (i, Property k handlerValue) st =
     (if is_function_literal handlerValue
      then st\<lparr>authenticatedHandlerFunctions :=
             insert (value_addr (property_addr obj i)) (authenticatedHandlerFunctions st)\<rparr>
      else st)"
| "mark_handler obj (i, n) st = st"

fun CallExpression_B :: "stateB \<Rightarrow> visit \<Rightarrow> stateB" where
  "CallExpression_B st (a, CallExpression (Identifier calleeName) args, ps) =
     (if calleeName \<in> authenticatedImports st
      then (case args of
              ObjectExpression properties # rest \<Rightarrow>
                (case find_from is_handler_property 0 properties of
                   None \<Rightarrow> st
                 | Some handlerProperty \<Rightarrow> mark_handler (argument_addr a 0) handlerProperty st)
            | _ \<Rightarrow> st)
      else st)"
| "CallExpression_B st (a, n, ps) = st"

fun identifier_named :: "string \<Rightarrow> node \<Rightarrow> bool" where
  "identifier_named s (Identifier n) = (n = s)"
| "identifier_named s n = False"

fun is_ctx_auth :: "node \<Rightarrow> bool" where
  "is_ctx_auth (MemberExpression obj prop) =
     (identifier_named ''auth'' prop \<and> identifier_named ''ctx'' obj)"
| "is_ctx_auth n = False"

fun is_CallExpression :: "node \<Rightarrow> bool" where
  "is_CallExpression (CallExpression callee args) = True"
| "is_CallExpression n = False"

text \<open>
  The first loop: is some node up the parent chain a call whose callee is this very
  node? The second loop starts at the node itself and looks for a marked function
  literal up the chain.
\<close>

fun called :: "path \<Rightarrow> parents \<Rightarrow> bool" where
  "called a [] = False"
| "called a ((p, parent) # ps) =
     (if is_CallExpression parent \<and> callee_addr p = a then True else called a ps)"

fun inside_handler :: "path set \<Rightarrow> parents \<Rightarrow> bool" where
  "inside_handler hs [] = False"
| "inside_handler hs ((c, current) # ps) =
     (if is_function_literal current \<and> c \<in> hs then True else inside_handler hs ps)"

fun MemberExpression_B :: "stateB \<Rightarrow> visit \<Rightarrow> stateB" where
  "MemberExpression_B st (a, MemberExpression obj prop, ps) =
     (if identifier_named ''getUserIdentity'' prop \<and> is_ctx_auth obj
      then if called a ps
           then if inside_handler (authenticatedHandlerFunctions st)
                     ((a, MemberExpression obj prop) # ps)
                then reportB a useContextIdentity st
                else st
           else st
      else st)"
| "MemberExpression_B st (a, n, ps) = st"

definition create_B :: "string \<Rightarrow> stateB listeners" where
  "create_B filename =
     (if isAuthFile filename then no_listeners
      else \<lparr>onImportDeclaration = Some ImportDeclaration_B,
            onCallExpression = Some CallExpression_B,
            onMemberExpression = Some MemberExpression_B\<rparr>)"

definition ruleB :: "string \<Rightarrow> node \<Rightarrow> diagnostic list" where
  "ruleB filename program = reportsB (run (create_B filename) (traversal program) initB)"

definition stateB_at :: "string \<Rightarrow> node \<Rightarrow> nat \<Rightarrow> stateB" where
  "stateB_at filename program k =
     run (create_B filename) (take k (traversal program)) initB"

section \<open>The listeners of rule B, read by read\<close>

text \<open>
  In the listeners above a pattern stands for a type test together with the reads it
  licenses. Here the same listeners are written read by read: a property that an object
  lacks reads as \<^verbatim>\<open>undefined\<close> (\<open>None\<close>), and reading a property of \<^verbatim>\<open>undefined\<close> is a
  \<^verbatim>\<open>TypeError\<close>, which ends the pass.
\<close>

datatype fault = TypeError

datatype node_type =
    T_Identifier | T_Literal | T_MemberExpression | T_CallExpression | T_ObjectExpression
  | T_Property | T_ArrowFunctionExpression | T_FunctionExpression | T_ImportDeclaration
  | T_Other string

fun type_of :: "node \<Rightarrow> node_type" where
  "type_of (Identifier n) = T_Identifier"
| "type_of (Literal v) = T_Literal"
| "type_of (MemberExpression obj prop) = T_MemberExpression"
| "type_of (CallExpression callee args) = T_CallExpression"
| "type_of (ObjectExpression properties) = T_ObjectExpression"
| "type_of (Property k v) = T_Property"
| "type_of (ArrowFunctionExpression params body) = T_ArrowFunctionExpression"
| "type_of (FunctionExpression params body) = T_FunctionExpression"
| "type_of (ImportDeclaration specifiers src) = T_ImportDeclaration"
| "type_of (OtherNode ty cs) = T_Other ty"

fun key_of :: "node \<Rightarrow> node option" where
  "key_of (Property k v) = Some k"
| "key_of n = None"

fun value_of :: "node \<Rightarrow> node option" where
  "value_of (Property k v) = Some v"
| "value_of n = None"

fun properties_of :: "node \<Rightarrow> node list option" where
  "properties_of (ObjectExpression properties) = Some properties"
| "properties_of n = None"

fun node_name :: "node \<Rightarrow> string option" where
  "node_name (Identifier n) = Some n"
| "node_name n = None"

definition element :: "'a list \<Rightarrow> nat \<Rightarrow> 'a option" where
  "element xs i = (if i < length xs then Some (xs ! i) else None)"

text \<open>\<open>read f x\<close> is \<^verbatim>\<open>x.f\<close> for an \<open>x\<close> that may be \<^verbatim>\<open>undefined\<close>.\<close>

definition read :: "('a \<Rightarrow> 'b) \<Rightarrow> 'a option \<Rightarrow> fault + 'b" where
  "read f x = (case x of None \<Rightarrow> Inl TypeError | Some y \<Rightarrow> Inr (f y))"

text \<open>\<^verbatim>\<open>a && b\<close>: \<open>b\<close> is not evaluated, so cannot fault, when \<open>a\<close> is false.\<close>

definition and_also :: "fault + bool \<Rightarrow> fault + bool \<Rightarrow> fault + bool" where
  "and_also a b = (case a of Inl e \<Rightarrow> Inl e | Inr False \<Rightarrow> Inr False | Inr True \<Rightarrow> b)"

definition is_handler_property_reads :: "node \<Rightarrow> fault + bool" where
  "is_handler_property_reads prop =
     and_also (Inr (type_of prop = T_Property))
       (and_also (read (\<lambda>k. type_of k = T_Identifier) (key_of prop))
          (read (\<lambda>k. node_name k = Some ''handler'') (key_of prop)))"

fun find_reads :: "('a \<Rightarrow> fault + bool) \<Rightarrow> nat \<Rightarrow> 'a list \<Rightarrow> fault + (nat \<times> 'a) option" where
  "find_reads P i [] = Inr None"
| "find_reads P i (x # xs) =
     (case P x of
        Inl e \<Rightarrow> Inl e
      | Inr True \<Rightarrow> Inr (Some (i, x))
      | Inr False \<Rightarrow> find_reads P (Suc i) xs)"

fun CallExpression_B_reads :: "stateB \<Rightarrow> visit \<Rightarrow> fault + stateB" where
  "CallExpression_B_reads st (a, CallExpression callee args, ps) =
     (if type_of callee = T_Identifier
      then (case node_name callee of
              None \<Rightarrow> Inr st
            | Some calleeName \<Rightarrow>
                if calleeName \<in> authenticatedImports st
                then (case and_also (Inr (0 < length args))
                             (read (\<lambda>x. type_of x = T_ObjectExpression) (element args 0)) of
                        Inl e \<Rightarrow> Inl e
                      | Inr False \<Rightarrow> Inr st
                      | Inr True \<Rightarrow>
                          (case read properties_of (element args 0) of
                             Inl e \<Rightarrow> Inl e
                           | Inr None \<Rightarrow> Inl TypeError
                           | Inr (Some properties) \<Rightarrow>
                               (case find_reads is_handler_property_reads 0 properties of
                                  Inl e \<Rightarrow> Inl e
                                | Inr None \<Rightarrow> Inr st
                                | Inr (Some (i, handlerProperty)) \<Rightarrow>
                                    (case value_of handlerProperty of
                                       None \<Rightarrow> Inr st
                                     | Some handlerValue \<Rightarrow>
                                         if type_of handlerValue = T_ArrowFunctionExpression \<or>
                                            type_of handlerValue = T_FunctionExpression
                                         then Inr (st\<lparr>authenticatedHandlerFunctions :=
                                                 insert (value_addr (property_addr (argument_addr a 0) i))
                                                   (authenticatedHandlerFunctions st)\<rparr>)
                                         else Inr st))))
                else Inr st)
      else Inr st)"
| "CallExpression_B_reads st (a, n, ps) = Inr st"

fun imported_of :: "specifier \<Rightarrow> module_export_name option" where
  "imported_of (ImportSpecifier imported localName) = Some imported"
| "imported_of sp = None"

fun local_of :: "specifier \<Rightarrow> string" where
  "local_of (ImportSpecifier imported localName) = localName"
| "local_of (ImportDefaultSpecifier localName) = localName"
| "local_of (ImportNamespaceSpecifier localName) = localName"

fun is_ImportSpecifier :: "specifier \<Rightarrow> bool" where
  "is_ImportSpecifier (ImportSpecifier imported localName) = True"
| "is_ImportSpecifier sp = False"

definition add_import_reads :: "specifier \<Rightarrow> stateB \<Rightarrow> fault + stateB" where
  "add_import_reads specifier st =
     (if is_ImportSpecifier specifier
      then (case read name_of (imported_of specifier) of
              Inl e \<Rightarrow> Inl e
            | Inr importedName \<Rightarrow>
                if importedName = Some ''authenticatedQuery'' \<or>
                   importedName = Some ''authenticatedMutation''
                then Inr (st\<lparr>authenticatedImports :=
                            insert (local_of specifier) (authenticatedImports st)\<rparr>)
                else Inr st)
      else Inr st)"

fun for_each :: "('a \<Rightarrow> 'st \<Rightarrow> fault + 'st) \<Rightarrow> 'a list \<Rightarrow> 'st \<Rightarrow> fault + 'st" where
  "for_each f [] st = Inr st"
| "for_each f (x # xs) st = (case f x st of Inl e \<Rightarrow> Inl e | Inr st' \<Rightarrow> for_each f xs st')"

fun ImportDeclaration_B_reads :: "stateB \<Rightarrow> visit \<Rightarrow> fault + stateB" where
  "ImportDeclaration_B_reads st (a, ImportDeclaration specifiers importSource, ps) =
     (if importSource = ''./auth'' \<or> importSource = ''../auth'' \<or>
         str_includes importSource ''/auth'' \<or>
         importSource = ''./_generated/server'' \<or>
         str_includes importSource ''_generated/server''
      then for_each add_import_reads specifiers st
      else Inr st)"
| "ImportDeclaration_B_reads st (a, n, ps) = Inr st"

section \<open>The wrappers\<close>

text \<open>
  An asynchronous call runs against the world outside the function (the auth provider,
  the database) and settles: rejected with a thrown value or fulfilled with a result.
  \<open>Error msg\<close> is \<^verbatim>\<open>new Error(msg)\<close>.
\<close>

datatype 'e thrown = Error string | Thrown 'e

type_synonym ('w, 'e, 'r) async = "'w \<Rightarrow> ('e thrown + 'r) \<times> 'w"

text \<open>
  The values of the language. The declared type of \<^verbatim>\<open>getUserIdentity\<close> promises an
  identity object or \<^verbatim>\<open>null\<close>, but types are erased when the code runs, and the tests
  of the repository resolve it to \<^verbatim>\<open>undefined\<close> as well: the promise may resolve to
  any value. A number is not-a-number, an infinity with its sign, or a sign, a
  significand and an exponent; zero has the significand zero, under either sign.
  \<open>Object\<close> stands for every object, with a content of type \<open>'o\<close>.
\<close>

datatype js_number = NaN | Infinity bool | Finite bool nat int

datatype 'o js_value =
    Undefined | Null | Boolean bool | Number js_number | BigInt int | String string
  | Symbol string | Object 'o

text \<open>
  \<^verbatim>\<open>!identity\<close> is the negation of the conversion to a boolean: \<^verbatim>\<open>undefined\<close>,
  \<^verbatim>\<open>null\<close>, \<^verbatim>\<open>false\<close>, both zeros, \<^verbatim>\<open>NaN\<close>, \<^verbatim>\<open>0n\<close> and the empty string convert to
  \<^verbatim>\<open>false\<close>, every other value to \<^verbatim>\<open>true\<close>.
\<close>

fun ToBoolean :: "'o js_value \<Rightarrow> bool" where
  "ToBoolean Undefined = False"
| "ToBoolean Null = False"
| "ToBoolean (Boolean b) = b"
| "ToBoolean (Number NaN) = False"
| "ToBoolean (Number (Infinity negative)) = True"
| "ToBoolean (Number (Finite negative significand exponent)) = (significand \<noteq> 0)"
| "ToBoolean (BigInt n) = (n \<noteq> 0)"
| "ToBoolean (String s) = (s \<noteq> '''')"
| "ToBoolean (Symbol description) = True"
| "ToBoolean (Object x) = True"

text \<open>
  The context: \<^verbatim>\<open>ctx.auth.getUserIdentity()\<close> resolves to a value; \<open>others\<close> stands for
  every other property. \<^verbatim>\<open>{ ...ctx, identity }\<close> copies the properties and sets
  \<^verbatim>\<open>identity\<close>.
\<close>

record ('w, 'e, 'o) auth =
  getUserIdentity :: "('w, 'e, 'o js_value) async"

record ('w, 'e, 'o, 'c) ctx =
  auth :: "('w, 'e, 'o) auth"
  others :: 'c

record ('w, 'e, 'o, 'c) authenticated_ctx = "('w, 'e, 'o, 'c) ctx" +
  identity :: "'o js_value"

definition with_identity ::
  "('w, 'e, 'o, 'c) ctx \<Rightarrow> 'o js_value \<Rightarrow> ('w, 'e, 'o, 'c) authenticated_ctx" where
  "with_identity c i = \<lparr>auth = auth c, others = others c, identity = i\<rparr>"

text \<open>
  The object given to a wrapper and the object the wrapper gives to \<^verbatim>\<open>query\<close> or
  \<^verbatim>\<open>mutation\<close>: \<^verbatim>\<open>{ args, returns, handler }\<close>, \<^verbatim>\<open>returns\<close> optional. Of the two
  versions of the file among the sources, one does not pass \<^verbatim>\<open>returns\<close> on; the handler
  is the same in both.
\<close>

record ('a, 'v, 'h) function_definition =
  def_args :: 'a
  def_returns :: "'v option"
  def_handler :: 'h

record ('q, 'm) options =
  query :: 'q
  mutation :: 'm

record ('aq, 'am) methods =
  authenticatedQuery :: 'aq
  authenticatedMutation :: 'am

text \<open>\<^verbatim>\<open>args[0]\<close> of the rest parameter: \<^verbatim>\<open>undefined\<close> when no argument was passed.\<close>

definition first_arg :: "'x list \<Rightarrow> 'x option" where
  "first_arg xs = (case xs of [] \<Rightarrow> None | x # rest \<Rightarrow> Some x)"

text \<open>
  The \<^verbatim>\<open>async (ctx, ...args) => { ... }\<close> that both wrappers build around the handler
  of the definition. A rejected \<^verbatim>\<open>await\<close> and a \<^verbatim>\<open>throw\<close> reject the function;
  \<^verbatim>\<open>if (!identity) throw\<close> throws on every value that converts to \<^verbatim>\<open>false\<close>.
\<close>

definition authenticated ::
  "(('w, 'e, 'o, 'c) authenticated_ctx \<Rightarrow> 'x option \<Rightarrow> ('w, 'e, 'r) async) \<Rightarrow>
   ('w, 'e, 'o, 'c) ctx \<Rightarrow> 'x list \<Rightarrow> ('w, 'e, 'r) async" where
  "authenticated handler c xs w =
     (case getUserIdentity (auth c) w of
        (Inl e, w') \<Rightarrow> (Inl e, w')
      | (Inr i, w') \<Rightarrow>
          if \<not> ToBoolean i then (Inl (Error ''Not authenticated''), w')
          else handler (with_identity c i) (first_arg xs) w')"

definition createAuthenticatedMethods ::
  "(('a, 'v, ('w, 'e, 'o, 'c) ctx \<Rightarrow> 'x list \<Rightarrow> ('w, 'e, 'r) async) function_definition \<Rightarrow> 'rq,
    ('a, 'v, ('w, 'e, 'o, 'd) ctx \<Rightarrow> 'x list \<Rightarrow> ('w, 'e, 'r) async) function_definition \<Rightarrow> 'rm)
     options \<Rightarrow>
   (('a, 'v, ('w, 'e, 'o, 'c) authenticated_ctx \<Rightarrow> 'x option \<Rightarrow> ('w, 'e, 'r) async)
       function_definition \<Rightarrow> 'rq,
    ('a, 'v, ('w, 'e, 'o, 'd) authenticated_ctx \<Rightarrow> 'x option \<Rightarrow> ('w, 'e, 'r) async)
       function_definition \<Rightarrow> 'rm) methods" where
  "createAuthenticatedMethods opts =
     \<lparr>authenticatedQuery = (\<lambda>d. query opts
          \<lparr>def_args = def_args d, def_returns = def_returns d,
           def_handler = authenticated (def_handler d)\<rparr>),
      authenticatedMutation = (\<lambda>d. mutation opts
          \<lparr>def_args = def_args d, def_returns = def_returns d,
           def_handler = authenticated (def_handler d)\<rparr>)\<rparr>"

section \<open>Notions used in the statements\<close>

text \<open>
  The visited node is an import declaration from a module path that contains the
  generated-server substring, and one of its specifiers imports the banned symbol \<open>b\<close>
  under the local name \<open>x\<close>.
\<close>

definition imports_banned :: "visit \<Rightarrow> string \<Rightarrow> string \<Rightarrow> bool" where
  "imports_banned v x b =
     (\<exists>specifiers src. v_node v = ImportDeclaration specifiers src \<and>
        str_includes src ''_generated/server'' \<and>
        ImportSpecifier (ExportIdentifier b) x \<in> set specifiers \<and>
        (b = ''query'' \<or> b = ''mutation''))"

text \<open>
  Before its \<open>k\<close>-th node the pass has visited an import of the banned symbol \<open>b\<close>
  under the local name \<open>x\<close>, and no import of another banned symbol under \<open>x\<close>
  (a module cannot declare one local name twice).
\<close>

definition bound_before :: "node \<Rightarrow> nat \<Rightarrow> string \<Rightarrow> string \<Rightarrow> bool" where
  "bound_before program k x b =
     ((\<exists>j<k. imports_banned (visited program j) x b) \<and>
      (\<forall>i<k. \<forall>b'. imports_banned (visited program i) x b' \<longrightarrow> b' = b))"

text \<open>The forbidden three-segment chain \<^verbatim>\<open>ctx.auth.getUserIdentity\<close>.\<close>

definition forbidden_chain :: node where
  "forbidden_chain =
     MemberExpression (MemberExpression (Identifier ''ctx'') (Identifier ''auth''))
       (Identifier ''getUserIdentity'')"

text \<open>The visited node is the callee of its parent, a call expression.\<close>

definition is_callee :: "visit \<Rightarrow> bool" where
  "is_callee v =
     (case v_parents v of
        (p, CallExpression callee args) # rest \<Rightarrow> v_addr v = callee_addr p
      | _ \<Rightarrow> False)"

text \<open>The addresses of the function literals that enclose the visited node, nearest first.\<close>

definition enclosing_functions :: "visit \<Rightarrow> path list" where
  "enclosing_functions v = map fst (filter (\<lambda>(c, f). is_function_literal f) (v_parents v))"

text \<open>
  Visiting \<open>v\<close> in state \<open>st\<close> registers the function literal at address \<open>h\<close>: \<open>v\<close>
  is a call of an identifier imported as a wrapper, its first argument is an object
  literal, and the value of the first property with the identifier key \<^verbatim>\<open>handler\<close> is a
  function literal, which stands at \<open>h\<close>.
\<close>

definition registers :: "stateB \<Rightarrow> visit \<Rightarrow> path \<Rightarrow> bool" where
  "registers st v h =
     (case v_node v of
        CallExpression (Identifier w) (ObjectExpression properties # rest) \<Rightarrow>
          w \<in> authenticatedImports st \<and>
          (case find_from is_handler_property 0 properties of
             Some (n, Property key fn) \<Rightarrow>
               is_function_literal fn \<and>
               h = value_addr (property_addr (argument_addr (v_addr v) 0) n)
           | _ \<Rightarrow> False)
      | _ \<Rightarrow> False)"

text \<open>
  The specifiers of an import declaration that import one of \<open>names\<close> by name.
\<close>

definition matching_specifiers :: "string list \<Rightarrow> specifier list \<Rightarrow> specifier list" where
  "matching_specifiers names specifiers =
     filter (\<lambda>sp. case sp of
               ImportSpecifier (ExportIdentifier importedName) localName \<Rightarrow>
                 importedName \<in> set names
             | _ \<Rightarrow> False) specifiers"

text \<open>
  \<open>guards h r\<close>: the function \<open>r\<close> runs \<^verbatim>\<open>getUserIdentity\<close> first. When that rejects,
  \<open>r\<close> rejects with the same value. When it resolves to a value that converts to
  \<^verbatim>\<open>false\<close> (\<^verbatim>\<open>null\<close>, \<^verbatim>\<open>undefined\<close> and the other falsy values), \<open>r\<close> rejects with
  \<^verbatim>\<open>Error('Not authenticated')\<close>. In both cases the world is the one
  \<^verbatim>\<open>getUserIdentity\<close> left, whatever \<open>h\<close> is. When it resolves to any other value, \<open>r\<close>
  settles as \<open>h\<close> does on the context extended by that value, in that world.
\<close>

definition guards :: "(('w, 'e, 'o, 'c) authenticated_ctx \<Rightarrow> 'x option \<Rightarrow> ('w, 'e, 'r) async) \<Rightarrow>
   (('w, 'e, 'o, 'c) ctx \<Rightarrow> 'x list \<Rightarrow> ('w, 'e, 'r) async) \<Rightarrow> bool" where
  "guards h r =
     (\<forall>c xs w w'.
        (\<forall>e. getUserIdentity (auth c) w = (Inl e, w') \<longrightarrow> r c xs w = (Inl e, w')) \<and>
        (\<forall>i. getUserIdentity (auth c) w = (Inr i, w') \<longrightarrow>
           (\<not> ToBoolean i \<longrightarrow> r c xs w = (Inl (Error ''Not authenticated''), w')) \<and>
           (ToBoolean i \<longrightarrow> r c xs w = h (with_identity c i) (first_arg xs) w')))"

section \<open>Example files\<close>

text \<open>The syntax trees of small files, for evaluating the rules.\<close>

definition import_of :: "string \<Rightarrow> string \<Rightarrow> string \<Rightarrow> node" where
  "import_of importedName localName src =
     ImportDeclaration [ImportSpecifier (ExportIdentifier importedName) localName] src"

text \<open>The statement \<^verbatim>\<open>await ctx.auth.getUserIdentity();\<close>\<close>

definition await_call :: node where
  "await_call =
     OtherNode ''ExpressionStatement''
       [OtherNode ''AwaitExpression'' [CallExpression forbidden_chain []]]"

text \<open>
  Building blocks: \<^verbatim>\<open>async (ctx) => { body }\<close>, the statement
  \<^verbatim>\<open>authenticatedQuery({ args: {}, key: fn });\<close> and
  \<^verbatim>\<open>import { authenticatedQuery } from './auth';\<close>.
\<close>

definition handler_of :: "node \<Rightarrow> node" where
  "handler_of body =
     ArrowFunctionExpression [Identifier ''ctx''] (OtherNode ''BlockStatement'' [body])"

definition wrapper_call :: "node \<Rightarrow> node \<Rightarrow> node" where
  "wrapper_call key fn =
     OtherNode ''ExpressionStatement''
       [CallExpression (Identifier ''authenticatedQuery'')
          [ObjectExpression [Property (Identifier ''args'') (ObjectExpression []),
             Property key fn]]]"

definition import_wrapper :: node where
  "import_wrapper = import_of ''authenticatedQuery'' ''authenticatedQuery'' ''./auth''"

text \<open>
  \<^verbatim>\<open>import { query } from './_generated/server';
  query({});\<close>
\<close>

definition scenario1 :: node where
  "scenario1 = OtherNode ''Program''
     [import_of ''query'' ''query'' ''./_generated/server'',
      OtherNode ''ExpressionStatement''
        [CallExpression (Identifier ''query'') [ObjectExpression []]]]"

text \<open>
  \<^verbatim>\<open>import { mutation as m } from '../_generated/server';
  m({});\<close>
\<close>

definition scenario_alias :: node where
  "scenario_alias = OtherNode ''Program''
     [import_of ''mutation'' ''m'' ''../_generated/server'',
      OtherNode ''ExpressionStatement''
        [CallExpression (Identifier ''m'') [ObjectExpression []]]]"

text \<open>
  \<^verbatim>\<open>query({});
  import { query } from './_generated/server';\<close>
\<close>

definition call_before_import :: node where
  "call_before_import = OtherNode ''Program''
     [OtherNode ''ExpressionStatement''
        [CallExpression (Identifier ''query'') [ObjectExpression []]],
      import_of ''query'' ''query'' ''./_generated/server'']"

text \<open>
  \<^verbatim>\<open>import { authenticatedQuery } from './auth';
  authenticatedQuery({ args: {}, handler: async (ctx) => { await ctx.auth.getUserIdentity(); } });\<close>
\<close>

definition scenario2 :: node where
  "scenario2 = OtherNode ''Program''
     [import_wrapper,
      wrapper_call (Identifier ''handler'') (handler_of await_call)]"

text \<open>
  The same with the forbidden call inside a helper declared in the handler:
  \<^verbatim>\<open>handler: async (ctx) => { const helper = () => await ctx.auth.getUserIdentity(); }\<close>
\<close>

definition scenario3 :: node where
  "scenario3 = OtherNode ''Program''
     [import_wrapper,
      wrapper_call (Identifier ''handler'')
        (handler_of (OtherNode ''VariableDeclaration''
           [OtherNode ''VariableDeclarator''
              [Identifier ''helper'',
               ArrowFunctionExpression []
                 (OtherNode ''AwaitExpression'' [CallExpression forbidden_chain []])]]))]"

text \<open>
  The chain is only referred to, not called:
  \<^verbatim>\<open>handler: async (ctx) => { const f = ctx.auth.getUserIdentity; }\<close>
\<close>

definition scenario_reference :: node where
  "scenario_reference = OtherNode ''Program''
     [import_wrapper,
      wrapper_call (Identifier ''handler'')
        (handler_of (OtherNode ''VariableDeclaration''
           [OtherNode ''VariableDeclarator'' [Identifier ''f'', forbidden_chain]]))]"

text \<open>
  \<^verbatim>\<open>import { query } from './_generated/server';
  query({ handler: async (ctx) => { await ctx.auth.getUserIdentity(); } });\<close>
\<close>

definition scenario4 :: node where
  "scenario4 = OtherNode ''Program''
     [import_of ''query'' ''query'' ''./_generated/server'',
      OtherNode ''ExpressionStatement''
        [CallExpression (Identifier ''query'')
           [ObjectExpression
              [Property (Identifier ''handler'')
                 (ArrowFunctionExpression [Identifier ''ctx'']
                    (OtherNode ''BlockStatement'' [await_call]))]]]]"

text \<open>
  The handler under a string-literal key:
  \<^verbatim>\<open>authenticatedQuery({ args: {}, 'handler': async (ctx) => { await ctx.auth.getUserIdentity(); } });\<close>
\<close>

definition scenario_string_key :: node where
  "scenario_string_key = OtherNode ''Program''
     [import_wrapper, wrapper_call (Literal ''handler'') (handler_of await_call)]"

text \<open>The same statement as the body of a handler that is registered.\<close>

definition scenario_string_key_nested :: node where
  "scenario_string_key_nested = OtherNode ''Program''
     [import_wrapper,
      wrapper_call (Identifier ''handler'')
        (handler_of (wrapper_call (Literal ''handler'') (handler_of await_call)))]"

text \<open>
  Shapes the rules do not expect:
  \<^verbatim>\<open>import auth from './auth';
  import { authenticatedQuery } from './auth';
  authenticatedQuery(config);
  authenticatedQuery({ args: {}, handler: makeHandler });
  authenticatedQuery();\<close>
\<close>

definition scenario_malformed :: node where
  "scenario_malformed = OtherNode ''Program''
     [ImportDeclaration [ImportDefaultSpecifier ''auth''] ''./auth'',
      import_wrapper,
      OtherNode ''ExpressionStatement''
        [CallExpression (Identifier ''authenticatedQuery'') [Identifier ''config'']],
      wrapper_call (Identifier ''handler'') (Identifier ''makeHandler''),
      OtherNode ''ExpressionStatement''
        [CallExpression (Identifier ''authenticatedQuery'') []]]"

text \<open>
  Example values: \<^verbatim>\<open>query\<close> and \<^verbatim>\<open>mutation\<close> that return the object they are given,
  a context whose \<^verbatim>\<open>getUserIdentity\<close> counts its calls in the world and resolves to a
  given value, and a handler that returns \<^verbatim>\<open>ctx.identity\<close> and adds ten to the world.
  An identity object is given by its subject.
\<close>

type_synonym example_registration =
  "(unit, unit, (nat, unit, string, unit) ctx \<Rightarrow> unit list \<Rightarrow>
     (nat, unit, string js_value) async) function_definition"

definition example_options ::
  "(example_registration \<Rightarrow> example_registration,
    example_registration \<Rightarrow> example_registration) options" where
  "example_options = \<lparr>query = (\<lambda>r. r), mutation = (\<lambda>r. r)\<rparr>"

definition example_ctx :: "string js_value \<Rightarrow> (nat, unit, string, unit) ctx" where
  "example_ctx i = \<lparr>auth = \<lparr>getUserIdentity = (\<lambda>w. (Inr i, Suc w))\<rparr>, others = ()\<rparr>"

text \<open>A context whose \<^verbatim>\<open>getUserIdentity\<close> rejects.\<close>

definition failing_ctx :: "(nat, unit, string, unit) ctx" where
  "failing_ctx =
     \<lparr>auth = \<lparr>getUserIdentity = (\<lambda>w. (Inl (Error ''Auth service error''), Suc w))\<rparr>,
      others = ()\<rparr>"

definition example_definition ::
  "(unit, unit, (nat, unit, string, unit) authenticated_ctx \<Rightarrow> unit option \<Rightarrow>
     (nat, unit, string js_value) async) function_definition" where
  "example_definition =
     \<lparr>def_args = (), def_returns = None,
      def_handler = (\<lambda>c x w. (Inr (identity c), w + 10))\<rparr>"

section \<open>The pass\<close>

lemma run_Nil: "run ls [] st = st"
  by (simp add: run_def)

lemma run_Cons: "run ls (v # vs) st = run ls vs (dispatch ls v st)"
  by (simp add: run_def)

lemma run_append: "run ls (xs @ ys) st = run ls ys (run ls xs st)"
  by (simp add: run_def)

lemma dispatch_no_listeners: "dispatch no_listeners v st = st"
proof -
  obtain a n ps where v: "v = (a, n, ps)" by (cases v)
  show ?thesis unfolding v by (cases n) (simp_all add: no_listeners_def call_listener_def)
qed

lemma run_no_listeners: "run no_listeners vs st = st"
  by (induction vs arbitrary: st) (simp_all add: run_Nil run_Cons dispatch_no_listeners)

lemma visits_addr_prefix:
  "v \<in> set (visits a ps n) \<Longrightarrow> prefix a (fst v)"
  "v \<in> set (visits_children a ps i cs) \<Longrightarrow> \<exists>j. i \<le> j \<and> prefix (a @ [j]) (fst v)"
proof (induction a ps n and a ps i cs arbitrary: v and v rule: visits_visits_children.induct)
  case (1 a ps n)
  from "1.prems" have "v = (a, n, ps) \<or> v \<in> set (visits_children a ((a, n) # ps) 0 (children n))"
    by (simp add: visits.simps)
  then show ?case
  proof
    assume "v = (a, n, ps)"
    then show ?thesis by simp
  next
    assume "v \<in> set (visits_children a ((a, n) # ps) 0 (children n))"
    then obtain j where "prefix (a @ [j]) (fst v)" using "1.IH" by blast
    then show ?thesis by (rule append_prefixD)
  qed
next
  case (2 a ps i)
  then show ?case by simp
next
  case (3 a ps i c cs)
  from "3.prems" have "v \<in> set (visits (a @ [i]) ps c) \<or> v \<in> set (visits_children a ps (Suc i) cs)"
    by simp
  then show ?case
  proof
    assume "v \<in> set (visits (a @ [i]) ps c)"
    then have "prefix (a @ [i]) (fst v)" by (rule "3.IH"(1))
    then show ?thesis by blast
  next
    assume "v \<in> set (visits_children a ps (Suc i) cs)"
    then obtain j where "Suc i \<le> j" "prefix (a @ [j]) (fst v)" using "3.IH"(2) by blast
    then show ?thesis using Suc_leD by blast
  qed
qed

lemma same_length_prefixes:
  "prefix (a @ [i]) b \<Longrightarrow> prefix (a @ [j]) b \<Longrightarrow> i = j"
  by (auto simp: prefix_def)

lemma visits_order:
  "sorted_wrt earlier (visits a ps n)"
  "sorted_wrt earlier (visits_children a ps i cs)"
proof (induction a ps n and a ps i cs rule: visits_visits_children.induct)
  case (1 a ps n)
  have "\<forall>v\<in>set (visits_children a ((a, n) # ps) 0 (children n)). earlier (a, n, ps) v"
  proof
    fix v assume "v \<in> set (visits_children a ((a, n) # ps) 0 (children n))"
    then obtain j where "prefix (a @ [j]) (fst v)" using visits_addr_prefix(2) by blast
    then show "earlier (a, n, ps) v"
      unfolding earlier_def by (auto simp: prefix_def)
  qed
  with 1 show ?case by (simp add: visits.simps)
next
  case (2 a ps i)
  show ?case by simp
next
  case (3 a ps i c cs)
  have "\<forall>u\<in>set (visits (a @ [i]) ps c). \<forall>v\<in>set (visits_children a ps (Suc i) cs). earlier u v"
  proof (intro ballI)
    fix u v
    assume u: "u \<in> set (visits (a @ [i]) ps c)" and v: "v \<in> set (visits_children a ps (Suc i) cs)"
    from u have pu: "prefix (a @ [i]) (fst u)" by (rule visits_addr_prefix(1))
    from v obtain j where j: "Suc i \<le> j" "prefix (a @ [j]) (fst v)"
      using visits_addr_prefix(2) by blast
    show "earlier u v"
      unfolding earlier_def
    proof
      assume "prefix (fst v) (fst u)"
      with j(2) have "prefix (a @ [j]) (fst u)" by (rule prefix_order.trans)
      with pu have "i = j" by (rule same_length_prefixes)
      with j(1) show False by simp
    qed
  qed
  with 3 show ?case by (simp add: sorted_wrt_append)
qed

lemma traversal_earlier:
  assumes "j < k" "k < length (traversal program)"
  shows "\<not> prefix (v_addr (visited program k)) (v_addr (visited program j))"
proof -
  have "sorted_wrt earlier (traversal program)"
    unfolding traversal_def by (rule visits_order(1))
  with assms have "earlier (traversal program ! j) (traversal program ! k)"
    by (simp add: sorted_wrt_iff_nth_less)
  then show ?thesis by (simp add: earlier_def visited_def v_addr_def)
qed

lemma traversal_addr_inj:
  assumes "j < length (traversal program)" "k < length (traversal program)"
    and "v_addr (visited program j) = v_addr (visited program k)"
  shows "j = k"
proof (rule ccontr)
  assume "j \<noteq> k"
  then consider "j < k" | "k < j" by linarith
  then show False
  proof cases
    case 1
    from traversal_earlier [OF 1 assms(2)] assms(3) show False by simp
  next
    case 2
    from traversal_earlier [OF 2 assms(1)] assms(3) show False by simp
  qed
qed

lemma visits_linked:
  "linked a n ps \<Longrightarrow> v \<in> set (visits a ps n) \<Longrightarrow> linked (fst v) (fst (snd v)) (snd (snd v))"
  "ps = (a, n') # ps' \<Longrightarrow> linked a n' ps' \<Longrightarrow> drop i (children n') = cs \<Longrightarrow>
     v \<in> set (visits_children a ps i cs) \<Longrightarrow> linked (fst v) (fst (snd v)) (snd (snd v))"
proof (induction a ps n and a ps i cs arbitrary: v and v n' ps' rule: visits_visits_children.induct)
  case (1 a ps n)
  from "1.prems"(2) have "v = (a, n, ps) \<or> v \<in> set (visits_children a ((a, n) # ps) 0 (children n))"
    by (simp add: visits.simps)
  then show ?case
  proof
    assume "v = (a, n, ps)"
    with "1.prems"(1) show ?thesis by simp
  next
    assume "v \<in> set (visits_children a ((a, n) # ps) 0 (children n))"
    with "1.prems"(1) show ?thesis by (intro "1.IH" [of n ps]) simp_all
  qed
next
  case (2 a ps i)
  then show ?case by simp
next
  case (3 a ps i c cs)
  from "3.prems"(3) have i: "i < length (children n')" and c: "children n' ! i = c"
    and rest: "drop (Suc i) (children n') = cs"
    by (auto simp: nth_via_drop drop_Suc drop_tl dest: arg_cong [where f = tl] intro: ccontr)
  from "3.prems"(4) have "v \<in> set (visits (a @ [i]) ps c) \<or> v \<in> set (visits_children a ps (Suc i) cs)"
    by simp
  then show ?case
  proof
    assume v: "v \<in> set (visits (a @ [i]) ps c)"
    have "linked (a @ [i]) c ps"
      using "3.prems"(1,2) i c by simp
    then show ?thesis using v by (rule "3.IH"(1))
  next
    assume v: "v \<in> set (visits_children a ps (Suc i) cs)"
    show ?thesis using "3.prems"(1,2) rest v by (rule "3.IH"(2))
  qed
qed

lemma traversal_linked:
  assumes "k < length (traversal program)"
  shows "linked (v_addr (visited program k)) (v_node (visited program k))
           (v_parents (visited program k))"
proof -
  have "linked [] program []" by simp
  moreover have "visited program k \<in> set (visits [] [] program)"
    using assms by (simp add: visited_def traversal_def)
  ultimately show ?thesis
    unfolding v_addr_def v_node_def v_parents_def by (rule visits_linked(1))
qed

lemma linked_strict_prefix:
  "linked b m qs \<Longrightarrow> (q, x) \<in> set qs \<Longrightarrow> strict_prefix q b"
proof (induction qs arbitrary: b m)
  case Nil
  then show ?case by simp
next
  case (Cons e qs)
  obtain p parent where e: "e = (p, parent)" by (cases e)
  from Cons.prems(1) obtain i where b: "b = p @ [i]" and l: "linked p parent qs"
    unfolding e by auto
  from Cons.prems(2) have "(q, x) = (p, parent) \<or> (q, x) \<in> set qs" unfolding e by simp
  then show ?case
  proof
    assume "(q, x) = (p, parent)"
    then show ?thesis using b by (simp add: strict_prefix_def)
  next
    assume "(q, x) \<in> set qs"
    with l have "strict_prefix q p" by (rule Cons.IH)
    then show ?thesis using b by (auto simp: strict_prefix_def prefix_def)
  qed
qed

section \<open>The exempt file\<close>

lemma str_endsWith_suffix: "str_endsWith s t = suffix t s"
proof
  assume "str_endsWith s t"
  then have "drop (length s - length t) s = t" by (simp add: str_endsWith_def)
  then have "s = take (length s - length t) s @ t" by (metis append_take_drop_id)
  then show "suffix t s" by (metis suffixI)
next
  assume "suffix t s"
  then obtain ys where "s = ys @ t" by (auto simp: suffix_def)
  then show "str_endsWith s t" by (simp add: str_endsWith_def)
qed

text \<open>
  Claim C4. For a file whose path ends in \<^verbatim>\<open>convex/auth.ts\<close>, written with a slash or
  with a backslash, both rules return no listener at all, and analysing the file yields
  no diagnostic from either rule, whatever the file contains.
\<close>

theorem exempt_file_no_diagnostics:
  assumes "suffix ''convex/auth.ts'' filename \<or>
           suffix (''convex'' @ [backslash] @ ''auth.ts'') filename"
  shows "create_A filename = no_listeners \<and> create_B filename = no_listeners \<and>
         ruleA filename program = [] \<and> ruleB filename program = []"
proof -
  from assms have "isAuthFile filename"
    by (simp add: isAuthFile_def str_endsWith_suffix)
  then have "create_A filename = no_listeners" and "create_B filename = no_listeners"
    by (simp_all add: create_A_def create_B_def)
  then show ?thesis
    by (simp add: ruleA_def ruleB_def run_no_listeners initA_def initB_def)
qed

text \<open>
  The file of \<open>scenario4\<close> calls the raw factory and looks the identity up. Under the
  exempt path nothing is reported; under another path the raw call is.
\<close>

theorem exempt_file_no_diagnostics_witness:
  "suffix ''convex/auth.ts'' ''app/convex/auth.ts'' \<and>
   create_A ''app/convex/auth.ts'' = no_listeners \<and>
   create_B ''app/convex/auth.ts'' = no_listeners \<and>
   ruleA ''app/convex/auth.ts'' scenario4 = [] \<and>
   ruleB ''app/convex/auth.ts'' scenario4 = [] \<and>
   ruleA ''convex/notes.ts'' scenario4 \<noteq> []"
proof -
  have h: "suffix ''convex/auth.ts'' ''app/convex/auth.ts''"
    by (simp add: suffix_to_prefix)
  have n: "ruleA ''convex/notes.ts'' scenario4 \<noteq> []"
    by code_simp
  from h have "suffix ''convex/auth.ts'' ''app/convex/auth.ts'' \<or>
      suffix (''convex'' @ [backslash] @ ''auth.ts'') ''app/convex/auth.ts''" ..
  from exempt_file_no_diagnostics [OF this, of scenario4] h n show ?thesis by simp
qed

section \<open>Reports of a pass\<close>

lemma run_reports:
  assumes step: "\<And>st v. \<exists>ds. reports (dispatch ls v st) = reports st @ ds \<and>
                   (\<forall>d\<in>set ds. d_node d = loc v)"
  shows "\<exists>ds. reports (run ls vs st) = reports st @ ds \<and> (\<forall>d\<in>set ds. d_node d \<in> loc ` set vs)"
proof (induction vs arbitrary: st)
  case Nil
  show ?case by (simp add: run_Nil)
next
  case (Cons v vs)
  from step obtain d1 where d1: "reports (dispatch ls v st) = reports st @ d1"
    "\<forall>d\<in>set d1. d_node d = loc v" by blast
  from Cons.IH obtain d2 where d2:
    "reports (run ls vs (dispatch ls v st)) = reports (dispatch ls v st) @ d2"
    "\<forall>d\<in>set d2. d_node d \<in> loc ` set vs" by blast
  have "reports (run ls (v # vs) st) = reports st @ (d1 @ d2)"
    using d1(1) d2(1) by (simp add: run_Cons)
  moreover have "\<forall>d\<in>set (d1 @ d2). d_node d \<in> loc ` set (v # vs)"
    using d1(2) d2(2) by auto
  ultimately show ?case by blast
qed

lemma run_reports_at:
  assumes step: "\<And>st v. \<exists>ds. reports (dispatch ls v st) = reports st @ ds \<and>
                   (\<forall>d\<in>set ds. d_node d = loc v)"
    and dv: "reports (dispatch ls v (run ls pre st)) = reports (run ls pre st) @ dv"
    and pre: "loc v \<notin> loc ` set pre" and post: "loc v \<notin> loc ` set post"
  shows "filter (\<lambda>d. d_node d = loc v) (reports (run ls (pre @ v # post) st)) =
         filter (\<lambda>d. d_node d = loc v) (reports st) @ filter (\<lambda>d. d_node d = loc v) dv"
proof -
  from run_reports [of reports ls loc pre st, OF step] obtain d1 where d1:
    "reports (run ls pre st) = reports st @ d1" "\<forall>d\<in>set d1. d_node d \<in> loc ` set pre"
    by blast
  from run_reports [of reports ls loc post "dispatch ls v (run ls pre st)", OF step]
  obtain d2 where d2:
    "reports (run ls post (dispatch ls v (run ls pre st))) =
       reports (dispatch ls v (run ls pre st)) @ d2"
    "\<forall>d\<in>set d2. d_node d \<in> loc ` set post"
    by blast
  have f1: "filter (\<lambda>d. d_node d = loc v) d1 = []"
    unfolding filter_empty_conv using d1(2) pre by metis
  have f2: "filter (\<lambda>d. d_node d = loc v) d2 = []"
    unfolding filter_empty_conv using d2(2) post by metis
  have "reports (run ls (pre @ v # post) st) = reports st @ d1 @ dv @ d2"
    using d1(1) d2(1) dv by (simp add: run_append run_Cons)
  then show ?thesis using f1 f2 by simp
qed

lemma traversal_split:
  assumes "k < length (traversal program)"
  shows "traversal program =
           take k (traversal program) @ visited program k # drop (Suc k) (traversal program)"
  using assms by (simp add: visited_def id_take_nth_drop [symmetric])

lemma traversal_addr_fresh:
  assumes k: "k < length (traversal program)"
  shows "v_addr (visited program k) \<notin> v_addr ` set (take k (traversal program))"
    and "v_addr (visited program k) \<notin> v_addr ` set (drop (Suc k) (traversal program))"
proof -
  show "v_addr (visited program k) \<notin> v_addr ` set (take k (traversal program))"
  proof
    assume "v_addr (visited program k) \<in> v_addr ` set (take k (traversal program))"
    then obtain j where "j < k" "v_addr (visited program j) = v_addr (visited program k)"
      using k by (auto simp: in_set_conv_nth visited_def)
    with k show False using traversal_addr_inj [of j program k] by simp
  qed
  show "v_addr (visited program k) \<notin> v_addr ` set (drop (Suc k) (traversal program))"
  proof
    assume "v_addr (visited program k) \<in> v_addr ` set (drop (Suc k) (traversal program))"
    then obtain x where x: "x \<in> set (drop (Suc k) (traversal program))"
      "v_addr x = v_addr (visited program k)" by force
    from x(1) obtain i where i: "i < length (drop (Suc k) (traversal program))"
      "drop (Suc k) (traversal program) ! i = x" by (auto simp: in_set_conv_nth)
    from i have "Suc k + i < length (traversal program)" and "visited program (Suc k + i) = x"
      by (simp_all add: visited_def)
    with x(2) k show False using traversal_addr_inj [of "Suc k + i" program k] by simp
  qed
qed

section \<open>Rule no-direct-query-mutation\<close>

lemma dispatch_A_exempt: "isAuthFile filename \<Longrightarrow> dispatch (create_A filename) v st = st"
  by (simp add: create_A_def dispatch_no_listeners)

lemma dispatch_A:
  assumes "\<not> isAuthFile filename"
  shows "dispatch (create_A filename) (a, n, ps) st =
     (case n of
        ImportDeclaration specifiers src \<Rightarrow> ImportDeclaration_A st (a, n, ps)
      | CallExpression callee args \<Rightarrow> CallExpression_A st (a, n, ps)
      | _ \<Rightarrow> st)"
  using assms by (cases n) (simp_all add: create_A_def call_listener_def)

lemma set_import_reports: "reportsA (set_import sp st) = reportsA st"
  by (cases sp) (simp_all split: option.splits)

lemma fold_set_import_reports: "reportsA (fold set_import sps st) = reportsA st"
  by (induction sps arbitrary: st) (simp_all add: set_import_reports)

lemma ImportDeclaration_A_reports: "reportsA (ImportDeclaration_A st v) = reportsA st"
proof -
  obtain a n ps where v: "v = (a, n, ps)" by (cases v)
  show ?thesis unfolding v by (cases n) (simp_all add: fold_set_import_reports)
qed

lemma CallExpression_A_table:
  "importsFromGeneratedServer (CallExpression_A st v) = importsFromGeneratedServer st"
proof -
  obtain a n ps where v: "v = (a, n, ps)" by (cases v)
  show ?thesis unfolding v
    by (rule CallExpression_A.cases [of "(st, a, n, ps)"])
      (simp_all add: reportA_def split: option.splits)
qed

lemma CallExpression_A_reports:
  "reportsA (CallExpression_A st (a, CallExpression callee args, ps)) =
     reportsA st @
       (if \<exists>x. callee = Identifier x \<and> importsFromGeneratedServer st x = Some ''query''
        then [\<lparr>d_node = callee_addr a, d_messageId = useAuthenticatedQuery\<rparr>]
        else if \<exists>x. callee = Identifier x \<and> importsFromGeneratedServer st x = Some ''mutation''
        then [\<lparr>d_node = callee_addr a, d_messageId = useAuthenticatedMutation\<rparr>]
        else [])"
  by (cases callee) (simp_all add: reportA_def split: option.splits)

lemma dispatch_A_reports:
  "\<exists>ds. reportsA (dispatch (create_A filename) v st) = reportsA st @ ds \<and>
     (\<forall>d\<in>set ds. d_node d = callee_addr (v_addr v))"
proof (cases "isAuthFile filename")
  case True
  then show ?thesis by (simp add: dispatch_A_exempt)
next
  case False
  obtain a n ps where v: "v = (a, n, ps)" by (cases v)
  show ?thesis
    unfolding v dispatch_A [OF False]
    by (cases n)
      (auto simp: fold_set_import_reports CallExpression_A_reports v_addr_def
        split: option.splits)
qed

lemma callee_addr_inj: "callee_addr a = callee_addr b \<Longrightarrow> a = b"
  by (simp add: callee_addr_def)

lemma ruleA_at:
  assumes k: "k < length (traversal program)"
    and dv: "reportsA (dispatch (create_A filename) (visited program k)
                (stateA_at filename program k)) =
             reportsA (stateA_at filename program k) @ dv"
  shows "filter (\<lambda>d. d_node d = callee_addr (v_addr (visited program k)))
           (ruleA filename program) =
         filter (\<lambda>d. d_node d = callee_addr (v_addr (visited program k))) dv"
proof -
  let ?loc = "\<lambda>v. callee_addr (v_addr v)"
  have pre: "?loc (visited program k) \<notin> ?loc ` set (take k (traversal program))"
    using traversal_addr_fresh(1) [OF k] by (auto dest: callee_addr_inj)
  have post: "?loc (visited program k) \<notin> ?loc ` set (drop (Suc k) (traversal program))"
    using traversal_addr_fresh(2) [OF k] by (auto dest: callee_addr_inj)
  have "filter (\<lambda>d. d_node d = ?loc (visited program k))
          (reportsA (run (create_A filename)
             (take k (traversal program) @ visited program k # drop (Suc k) (traversal program))
             initA)) =
        filter (\<lambda>d. d_node d = ?loc (visited program k)) (reportsA initA) @
        filter (\<lambda>d. d_node d = ?loc (visited program k)) dv"
    by (rule run_reports_at [where reports = reportsA and loc = ?loc,
          OF dispatch_A_reports dv [unfolded stateA_at_def] pre post])
  then show ?thesis
    using traversal_split [OF k] by (simp add: ruleA_def initA_def)
qed


lemma in_reports_iff:
  "(\<exists>m. \<lparr>d_node = x, d_messageId = m\<rparr> \<in> set ds) = (filter (\<lambda>d. d_node d = x) ds \<noteq> [])"
proof
  assume "\<exists>m. \<lparr>d_node = x, d_messageId = m\<rparr> \<in> set ds"
  then obtain m where "\<lparr>d_node = x, d_messageId = m\<rparr> \<in> set ds" ..
  then show "filter (\<lambda>d. d_node d = x) ds \<noteq> []"
    by (force simp: filter_empty_conv)
next
  assume "filter (\<lambda>d. d_node d = x) ds \<noteq> []"
  then obtain d where d: "d \<in> set ds" "d_node d = x" by (auto simp: filter_empty_conv)
  have "d = \<lparr>d_node = d_node d, d_messageId = d_messageId d\<rparr>" by simp
  with d show "\<exists>m. \<lparr>d_node = x, d_messageId = m\<rparr> \<in> set ds" by metis
qed

lemma str_includes_generated:
  "str_includes src ''convex/_generated/server'' \<Longrightarrow> str_includes src ''_generated/server''"
proof -
  assume "str_includes src ''convex/_generated/server''"
  then obtain ps ss where "src = ps @ ''convex/_generated/server'' @ ss"
    by (auto simp: str_includes_def sublist_def)
  then have "src = (ps @ ''convex/'') @ ''_generated/server'' @ ss" by simp
  then show ?thesis unfolding str_includes_def sublist_def by blast
qed

lemma set_import_table:
  assumes "importsFromGeneratedServer (set_import sp st) x = Some b"
  shows "importsFromGeneratedServer st x = Some b \<or>
         sp = ImportSpecifier (ExportIdentifier b) x \<and> (b = ''query'' \<or> b = ''mutation'')"
proof (cases sp)
  case (ImportSpecifier imported localName)
  show ?thesis
  proof (cases imported)
    case (ExportIdentifier importedName)
    with assms ImportSpecifier show ?thesis by (auto split: if_splits)
  next
    case (ExportLiteral v)
    with assms ImportSpecifier show ?thesis by simp
  qed
next
  case (ImportDefaultSpecifier localName)
  with assms show ?thesis by simp
next
  case (ImportNamespaceSpecifier localName)
  with assms show ?thesis by simp
qed

lemma fold_set_import_table:
  assumes "importsFromGeneratedServer (fold set_import sps st) x = Some b"
  shows "importsFromGeneratedServer st x = Some b \<or>
         ImportSpecifier (ExportIdentifier b) x \<in> set sps \<and> (b = ''query'' \<or> b = ''mutation'')"
  using assms
proof (induction sps arbitrary: st)
  case Nil
  then show ?case by simp
next
  case (Cons sp sps)
  from Cons.prems have "importsFromGeneratedServer (fold set_import sps (set_import sp st)) x = Some b"
    by simp
  from Cons.IH [OF this] show ?case using set_import_table [of sp st x b] by auto
qed

lemma dispatch_A_table:
  assumes "importsFromGeneratedServer (dispatch (create_A filename) v st) x = Some b"
  shows "importsFromGeneratedServer st x = Some b \<or> imports_banned v x b"
proof (cases "isAuthFile filename")
  case True
  with assms show ?thesis by (simp add: dispatch_A_exempt)
next
  case False
  obtain a n ps where v: "v = (a, n, ps)" by (cases v)
  note d = assms [unfolded v dispatch_A [OF False]]
  show ?thesis
  proof (cases n)
    case (ImportDeclaration specifiers src)
    show ?thesis
    proof (cases "str_includes src ''_generated/server'' \<or>
                  str_includes src ''convex/_generated/server''")
      case True
      then have inc: "str_includes src ''_generated/server''"
        using str_includes_generated by blast
      from d True have "importsFromGeneratedServer (fold set_import specifiers st) x = Some b"
        unfolding ImportDeclaration by simp
      from fold_set_import_table [OF this] inc show ?thesis
        unfolding v ImportDeclaration imports_banned_def v_node_def by auto
    next
      case nomatch: False
      with d show ?thesis
        unfolding ImportDeclaration by simp
    qed
  next
    case (CallExpression callee args)
    with d show ?thesis
      by (simp add: CallExpression_A_table)
  qed (use d in simp_all)
qed

lemma run_A_table:
  assumes "importsFromGeneratedServer (run (create_A filename) vs st) x = Some b"
  shows "importsFromGeneratedServer st x = Some b \<or> (\<exists>v\<in>set vs. imports_banned v x b)"
  using assms
proof (induction vs arbitrary: st)
  case Nil
  then show ?case by (simp add: run_Nil)
next
  case (Cons v vs)
  from Cons.prems have
    "importsFromGeneratedServer (run (create_A filename) vs (dispatch (create_A filename) v st)) x
       = Some b" by (simp add: run_Cons)
  from Cons.IH [OF this] show ?case using dispatch_A_table [of filename v st x b] by auto
qed

lemma stateA_at_table:
  assumes "importsFromGeneratedServer (stateA_at filename program k) x = Some b"
  shows "\<exists>j<k. j < length (traversal program) \<and> imports_banned (visited program j) x b"
proof -
  from run_A_table [OF assms [unfolded stateA_at_def]]
  obtain v where v: "v \<in> set (take k (traversal program))" "imports_banned v x b"
    by (auto simp: initA_def)
  from v(1) obtain j where "j < length (take k (traversal program))"
    "take k (traversal program) ! j = v" by (auto simp: in_set_conv_nth)
  then have "j < k" "j < length (traversal program)" "visited program j = v"
    by (simp_all add: visited_def)
  with v(2) show ?thesis by blast
qed

section \<open>Rule A: which calls are flagged\<close>

lemma flag_cases:
  "((if \<exists>x. c = Identifier x \<and> t x = Some q then [d1]
     else if \<exists>x. c = Identifier x \<and> t x = Some m then [d2] else []) \<noteq> []) =
   (\<exists>x b. c = Identifier x \<and> t x = Some b \<and> (b = q \<or> b = m))"
  by auto

lemma ex_with_origin:
  assumes "\<And>x b. t x = Some b \<Longrightarrow> J x b"
  shows "(\<exists>x b. A x \<and> t x = Some b \<and> P b) = (\<exists>x b. A x \<and> t x = Some b \<and> P b \<and> J x b)"
  using assms by blast

text \<open>
  Claim C1. Take any call expression the pass visits. The final report list of the rule
  holds a diagnostic located at that call's callee exactly when the file is not the
  exempt file and the callee is an identifier that the table, as it stands when the call
  is visited, maps to \<^verbatim>\<open>query\<close> or \<^verbatim>\<open>mutation\<close>. Such an entry stems from an import
  declaration visited before the call, from a module path containing the generated-server
  substring.
\<close>

theorem ruleA_flags_call_iff:
  assumes k: "k < length (traversal program)"
    and call: "v_node (visited program k) = CallExpression callee args"
  shows "(\<exists>m. \<lparr>d_node = callee_addr (v_addr (visited program k)), d_messageId = m\<rparr>
              \<in> set (ruleA filename program)) =
         (\<not> isAuthFile filename \<and>
          (\<exists>x b. callee = Identifier x \<and>
             importsFromGeneratedServer (stateA_at filename program k) x = Some b \<and>
             (b = ''query'' \<or> b = ''mutation'') \<and>
             (\<exists>j<k. imports_banned (visited program j) x b)))"
proof -
  let ?st = "stateA_at filename program k"
  let ?loc = "callee_addr (v_addr (visited program k))"
  obtain a ps where v: "visited program k = (a, CallExpression callee args, ps)"
    using call by (cases "visited program k") (simp add: v_node_def)
  show ?thesis
  proof (cases "isAuthFile filename")
    case True
    have "reportsA (dispatch (create_A filename) (visited program k) ?st) = reportsA ?st @ []"
      using True by (simp add: dispatch_A_exempt)
    from ruleA_at [OF k this] True show ?thesis by (simp add: in_reports_iff)
  next
    case False
    let ?dv = "if \<exists>x. callee = Identifier x \<and> importsFromGeneratedServer ?st x = Some ''query''
        then [\<lparr>d_node = callee_addr a, d_messageId = useAuthenticatedQuery\<rparr>]
        else if \<exists>x. callee = Identifier x \<and> importsFromGeneratedServer ?st x = Some ''mutation''
        then [\<lparr>d_node = callee_addr a, d_messageId = useAuthenticatedMutation\<rparr>]
        else []"
    have "reportsA (dispatch (create_A filename) (visited program k) ?st) = reportsA ?st @ ?dv"
      unfolding v dispatch_A [OF False] by (simp add: CallExpression_A_reports)
    from ruleA_at [OF k this]
    have "filter (\<lambda>d. d_node d = ?loc) (ruleA filename program) = filter (\<lambda>d. d_node d = ?loc) ?dv" .
    moreover have loc: "?loc = callee_addr a" by (simp add: v v_addr_def)
    moreover have "filter (\<lambda>d. d_node d = callee_addr a) ?dv = ?dv" by simp
    ultimately have "filter (\<lambda>d. d_node d = ?loc) (ruleA filename program) = ?dv" by simp
    then have "(\<exists>m. \<lparr>d_node = ?loc, d_messageId = m\<rparr> \<in> set (ruleA filename program)) =
      (?dv \<noteq> [])"
      unfolding in_reports_iff by simp
    also have "\<dots> = (\<exists>x b. callee = Identifier x \<and> importsFromGeneratedServer ?st x = Some b \<and>
             (b = ''query'' \<or> b = ''mutation''))"
      by (rule flag_cases)
    also have "\<dots> = (\<exists>x b. callee = Identifier x \<and> importsFromGeneratedServer ?st x = Some b \<and>
             (b = ''query'' \<or> b = ''mutation'') \<and>
             (\<exists>j<k. imports_banned (visited program j) x b))"
      by (rule ex_with_origin) (use stateA_at_table [of filename program k] in blast)
    finally show ?thesis using False by simp
  qed
qed


text \<open>In \<open>scenario1\<close> the fourth node visited is the call \<^verbatim>\<open>query({})\<close>.\<close>

theorem ruleA_flags_call_iff_witness:
  "3 < length (traversal scenario1) \<and>
   v_node (visited scenario1 3) = CallExpression (Identifier ''query'') [ObjectExpression []] \<and>
   \<not> isAuthFile ''convex/notes.ts'' \<and>
   importsFromGeneratedServer (stateA_at ''convex/notes.ts'' scenario1 3) ''query'' = Some ''query'' \<and>
   imports_banned (visited scenario1 1) ''query'' ''query'' \<and>
   (\<exists>m. \<lparr>d_node = callee_addr (v_addr (visited scenario1 3)), d_messageId = m\<rparr>
              \<in> set (ruleA ''convex/notes.ts'' scenario1)) \<and>
   ruleA ''convex/notes.ts'' scenario1 = [\<lparr>d_node = [1, 0, 0], d_messageId = useAuthenticatedQuery\<rparr>]"
proof -
  have k: "3 < length (traversal scenario1)" by code_simp
  have call: "v_node (visited scenario1 3) = CallExpression (Identifier ''query'') [ObjectExpression []]"
    by code_simp
  have f: "\<not> isAuthFile ''convex/notes.ts''" by code_simp
  have t: "importsFromGeneratedServer (stateA_at ''convex/notes.ts'' scenario1 3) ''query'' = Some ''query''"
    by code_simp
  have n1: "v_node (visited scenario1 1) =
      ImportDeclaration [ImportSpecifier (ExportIdentifier ''query'') ''query''] ''./_generated/server''"
    by code_simp
  have s1: "str_includes ''./_generated/server'' ''_generated/server''"
    by code_simp
  have i: "imports_banned (visited scenario1 1) ''query'' ''query''"
    unfolding imports_banned_def using n1 s1 by simp
  have r: "ruleA ''convex/notes.ts'' scenario1 = [\<lparr>d_node = [1, 0, 0], d_messageId = useAuthenticatedQuery\<rparr>]"
    by code_simp
  have "\<exists>m. \<lparr>d_node = callee_addr (v_addr (visited scenario1 3)), d_messageId = m\<rparr>
              \<in> set (ruleA ''convex/notes.ts'' scenario1)"
    unfolding ruleA_flags_call_iff [OF k call] using f t i
    by (intro conjI exI [of _ "''query''"] exI [of _ 1]) simp_all
  with k call f t i r show ?thesis by simp
qed

section \<open>Rule A: calls after the import\<close>

lemma stateA_at_Suc:
  assumes "k < length (traversal program)"
  shows "stateA_at filename program (Suc k) =
         dispatch (create_A filename) (visited program k) (stateA_at filename program k)"
  using assms
  by (simp add: stateA_at_def take_Suc_conv_app_nth run_append run_Cons run_Nil visited_def)

lemma set_import_dom:
  "importsFromGeneratedServer st x \<noteq> None \<Longrightarrow>
   importsFromGeneratedServer (set_import sp st) x \<noteq> None"
  by (cases sp) (simp_all split: option.splits)

lemma fold_set_import_dom:
  "importsFromGeneratedServer st x \<noteq> None \<Longrightarrow>
   importsFromGeneratedServer (fold set_import sps st) x \<noteq> None"
proof (induction sps arbitrary: st)
  case Nil
  then show ?case by simp
next
  case (Cons sp sps)
  from Cons.prems have "importsFromGeneratedServer (set_import sp st) x \<noteq> None"
    by (rule set_import_dom)
  then have "importsFromGeneratedServer (fold set_import sps (set_import sp st)) x \<noteq> None"
    by (rule Cons.IH)
  then show ?case by simp
qed

lemma fold_set_import_binds:
  assumes "ImportSpecifier (ExportIdentifier b) x \<in> set sps" "b = ''query'' \<or> b = ''mutation''"
  shows "importsFromGeneratedServer (fold set_import sps st) x \<noteq> None"
  using assms(1)
proof (induction sps arbitrary: st)
  case Nil
  then show ?case by simp
next
  case (Cons sp sps)
  from Cons.prems have "sp = ImportSpecifier (ExportIdentifier b) x \<or>
     ImportSpecifier (ExportIdentifier b) x \<in> set sps" by auto
  then show ?case
  proof
    assume "sp = ImportSpecifier (ExportIdentifier b) x"
    then have "importsFromGeneratedServer (set_import sp st) x \<noteq> None"
      using assms(2) by simp
    then show ?thesis by (simp del: not_None_eq add: fold_set_import_dom)
  next
    assume "ImportSpecifier (ExportIdentifier b) x \<in> set sps"
    then show ?thesis by (simp del: not_None_eq add: Cons.IH)
  qed
qed

lemma dispatch_A_dom:
  assumes "importsFromGeneratedServer st x \<noteq> None"
  shows "importsFromGeneratedServer (dispatch (create_A filename) v st) x \<noteq> None"
proof (cases "isAuthFile filename")
  case True
  with assms show ?thesis by (simp add: dispatch_A_exempt)
next
  case False
  obtain a n ps where v: "v = (a, n, ps)" by (cases v)
  show ?thesis
    unfolding v dispatch_A [OF False] using assms
    by (cases n) (simp_all del: not_None_eq add: fold_set_import_dom CallExpression_A_table)
qed

lemma dispatch_A_binds:
  assumes "\<not> isAuthFile filename" "imports_banned v x b"
  shows "importsFromGeneratedServer (dispatch (create_A filename) v st) x \<noteq> None"
proof -
  obtain a n ps where v: "v = (a, n, ps)" by (cases v)
  from assms(2) obtain specifiers src where n: "n = ImportDeclaration specifiers src"
    and src: "str_includes src ''_generated/server''"
    and sp: "ImportSpecifier (ExportIdentifier b) x \<in> set specifiers"
    and b: "b = ''query'' \<or> b = ''mutation''"
    unfolding imports_banned_def v v_node_def by auto
  show ?thesis
    unfolding v dispatch_A [OF assms(1)] n using src fold_set_import_binds [OF sp b]
    by (simp del: not_None_eq)
qed

lemma stateA_at_dom:
  assumes "\<not> isAuthFile filename" "k \<le> length (traversal program)"
    "j < k" "imports_banned (visited program j) x b"
  shows "importsFromGeneratedServer (stateA_at filename program k) x \<noteq> None"
  using assms(2,3)
proof (induction k)
  case 0
  then show ?case by simp
next
  case (Suc k)
  then have k: "k < length (traversal program)" by simp
  show ?case
  proof (cases "j = k")
    case True
    show ?thesis
      unfolding stateA_at_Suc [OF k]
      using dispatch_A_binds [OF assms(1)] assms(4) True by (simp del: not_None_eq)
  next
    case False
    with Suc.prems have "j < k" by simp
    with Suc.IH k have "importsFromGeneratedServer (stateA_at filename program k) x \<noteq> None"
      by (simp del: not_None_eq)
    then show ?thesis unfolding stateA_at_Suc [OF k] by (rule dispatch_A_dom)
  qed
qed

lemma stateA_at_bound:
  assumes "\<not> isAuthFile filename" "k \<le> length (traversal program)"
    and "bound_before program k x b"
  shows "importsFromGeneratedServer (stateA_at filename program k) x = Some b"
proof -
  from assms(3) obtain j where j: "j < k" "imports_banned (visited program j) x b"
    and only: "\<And>i b'. i < k \<Longrightarrow> imports_banned (visited program i) x b' \<Longrightarrow> b' = b"
    unfolding bound_before_def by blast
  from stateA_at_dom [OF assms(1,2) j]
  obtain b' where b': "importsFromGeneratedServer (stateA_at filename program k) x = Some b'"
    by blast
  from stateA_at_table [OF this] obtain i where "i < k" "imports_banned (visited program i) x b'"
    by blast
  then have "b' = b" by (rule only)
  with b' show ?thesis by simp
qed

lemma banned_cases:
  assumes "imports_banned v x b"
  shows "b = ''query'' \<or> b = ''mutation''"
  using assms unfolding imports_banned_def by blast

text \<open>
  Claim C5, as amended. In a file that is not exempt, let the banned symbol \<open>b\<close> be
  imported from a matching module path under the local name \<open>x\<close>, renamed or not, by an
  import declaration that the pass visits before the call, \<open>x\<close> being imported as no
  other banned symbol. Then a direct call \<open>x(...)\<close> yields exactly one diagnostic located
  at its callee, and its message identifier is the one of \<open>b\<close>.
\<close>

theorem ruleA_flags_call_after_import:
  assumes k: "k < length (traversal program)"
    and call: "v_node (visited program k) = CallExpression (Identifier x) args"
    and nonexempt: "\<not> isAuthFile filename"
    and bound: "bound_before program k x b"
  shows "filter (\<lambda>d. d_node d = callee_addr (v_addr (visited program k)))
           (ruleA filename program) =
         [\<lparr>d_node = callee_addr (v_addr (visited program k)),
           d_messageId = (if b = ''query'' then useAuthenticatedQuery
                          else useAuthenticatedMutation)\<rparr>]"
proof -
  let ?st = "stateA_at filename program k"
  obtain a ps where v: "visited program k = (a, CallExpression (Identifier x) args, ps)"
    using call by (cases "visited program k") (simp add: v_node_def)
  from k bound have t: "importsFromGeneratedServer ?st x = Some b"
    by (intro stateA_at_bound [OF nonexempt]) simp_all
  from bound have b: "b = ''query'' \<or> b = ''mutation''"
    unfolding bound_before_def using banned_cases by blast
  let ?d = "\<lparr>d_node = callee_addr a,
           d_messageId = (if b = ''query'' then useAuthenticatedQuery
                          else useAuthenticatedMutation)\<rparr>"
  have "reportsA (dispatch (create_A filename) (visited program k) ?st) = reportsA ?st @ [?d]"
    unfolding v dispatch_A [OF nonexempt] using t b by (elim disjE) (simp_all add: reportA_def)
  from ruleA_at [OF k this] show ?thesis by (simp add: v v_addr_def)
qed


lemma imports_banned_import_of:
  assumes "v_node v = import_of importedName localName src" "imports_banned v x b"
  shows "x = localName \<and> b = importedName"
  using assms unfolding imports_banned_def import_of_def by simp

lemma imports_banned_other:
  assumes "v_node v = OtherNode ty cs"
  shows "\<not> imports_banned v x b"
  using assms unfolding imports_banned_def by simp

text \<open>In \<open>scenario_alias\<close> the call goes through the alias \<^verbatim>\<open>m\<close>.\<close>

theorem ruleA_flags_call_after_import_witness:
  "3 < length (traversal scenario_alias) \<and>
   v_node (visited scenario_alias 3) = CallExpression (Identifier ''m'') [ObjectExpression []] \<and>
   \<not> isAuthFile ''convex/notes.ts'' \<and>
   bound_before scenario_alias 3 ''m'' ''mutation'' \<and>
   filter (\<lambda>d. d_node d = callee_addr (v_addr (visited scenario_alias 3)))
     (ruleA ''convex/notes.ts'' scenario_alias) =
   [\<lparr>d_node = callee_addr (v_addr (visited scenario_alias 3)),
     d_messageId = useAuthenticatedMutation\<rparr>] \<and>
   callee_addr (v_addr (visited scenario_alias 3)) = [1, 0, 0]"
proof -
  have k: "3 < length (traversal scenario_alias)" by code_simp
  have call: "v_node (visited scenario_alias 3) =
      CallExpression (Identifier ''m'') [ObjectExpression []]" by code_simp
  have f: "\<not> isAuthFile ''convex/notes.ts''" by code_simp
  have a: "callee_addr (v_addr (visited scenario_alias 3)) = [1, 0, 0]" by code_simp
  have n0: "v_node (visited scenario_alias 0) = OtherNode ''Program''
     [import_of ''mutation'' ''m'' ''../_generated/server'',
      OtherNode ''ExpressionStatement''
        [CallExpression (Identifier ''m'') [ObjectExpression []]]]" by code_simp
  have n1: "v_node (visited scenario_alias 1) =
      import_of ''mutation'' ''m'' ''../_generated/server''" by code_simp
  have n2: "v_node (visited scenario_alias 2) = OtherNode ''ExpressionStatement''
        [CallExpression (Identifier ''m'') [ObjectExpression []]]" by code_simp
  have s1: "str_includes ''../_generated/server'' ''_generated/server''" by code_simp
  have i1: "imports_banned (visited scenario_alias 1) ''m'' ''mutation''"
    unfolding imports_banned_def using n1 s1 by (simp add: import_of_def)
  have only: "imports_banned (visited scenario_alias i) ''m'' b' \<longrightarrow> b' = ''mutation''"
    if "i < 3" for i b'
  proof -
    from that consider "i = 0" | "i = 1" | "i = 2" by linarith
    then show ?thesis
    proof cases
      case 1
      then show ?thesis using imports_banned_other [OF n0] by simp
    next
      case 2
      then show ?thesis using imports_banned_import_of [OF n1] by blast
    next
      case 3
      then show ?thesis using imports_banned_other [OF n2] by simp
    qed
  qed
  have b: "bound_before scenario_alias 3 ''m'' ''mutation''"
    unfolding bound_before_def
  proof (intro conjI allI impI)
    show "\<exists>j<3. imports_banned (visited scenario_alias j) ''m'' ''mutation''"
      using i1 by (intro exI [of _ 1]) simp
  next
    fix i b' assume "i < 3" "imports_banned (visited scenario_alias i) ''m'' b'"
    then show "b' = ''mutation''" using only by blast
  qed
  from ruleA_flags_call_after_import [OF k call f b]
  have "filter (\<lambda>d. d_node d = callee_addr (v_addr (visited scenario_alias 3)))
     (ruleA ''convex/notes.ts'' scenario_alias) =
   [\<lparr>d_node = callee_addr (v_addr (visited scenario_alias 3)),
     d_messageId = useAuthenticatedMutation\<rparr>]" by simp
  with k call f b a show ?thesis by simp
qed

text \<open>
  Claim C5 as stated fails for a call that stands before the import in the file:
  imports are hoisted, so the call is a direct call of the banned import, but the table
  is still empty when the pass visits it.
\<close>

theorem call_before_import_not_flagged:
  "\<not> isAuthFile ''convex/notes.ts'' \<and>
   imports_banned (visited call_before_import 5) ''query'' ''query'' \<and>
   v_node (visited call_before_import 2) =
     CallExpression (Identifier ''query'') [ObjectExpression []] \<and>
   ruleA ''convex/notes.ts'' call_before_import = []"
proof -
  have f: "\<not> isAuthFile ''convex/notes.ts''" by code_simp
  have n5: "v_node (visited call_before_import 5) =
      import_of ''query'' ''query'' ''./_generated/server''" by code_simp
  have s: "str_includes ''./_generated/server'' ''_generated/server''" by code_simp
  have i: "imports_banned (visited call_before_import 5) ''query'' ''query''"
    unfolding imports_banned_def using n5 s by (simp add: import_of_def)
  have c: "v_node (visited call_before_import 2) =
     CallExpression (Identifier ''query'') [ObjectExpression []]" by code_simp
  have r: "ruleA ''convex/notes.ts'' call_before_import = []" by code_simp
  from f i c r show ?thesis by simp
qed

section \<open>Rule B, step by step\<close>

lemma dispatch_B_exempt: "isAuthFile filename \<Longrightarrow> dispatch (create_B filename) v st = st"
  by (simp add: create_B_def dispatch_no_listeners)

lemma dispatch_B:
  assumes "\<not> isAuthFile filename"
  shows "dispatch (create_B filename) (a, n, ps) st =
     (case n of
        ImportDeclaration specifiers src \<Rightarrow> ImportDeclaration_B st (a, n, ps)
      | CallExpression callee args \<Rightarrow> CallExpression_B st (a, n, ps)
      | MemberExpression obj prop \<Rightarrow> MemberExpression_B st (a, n, ps)
      | _ \<Rightarrow> st)"
  using assms by (cases n) (simp_all add: create_B_def call_listener_def)

lemma add_import_frame:
  "reportsB (add_import sp st) = reportsB st"
  "authenticatedHandlerFunctions (add_import sp st) = authenticatedHandlerFunctions st"
  "authenticatedImports st \<subseteq> authenticatedImports (add_import sp st)"
  by (cases sp; simp split: option.splits; blast)+

lemma fold_add_import_frame:
  "reportsB (fold add_import sps st) = reportsB st"
  "authenticatedHandlerFunctions (fold add_import sps st) = authenticatedHandlerFunctions st"
  "authenticatedImports st \<subseteq> authenticatedImports (fold add_import sps st)"
proof (induction sps arbitrary: st)
  case Nil
  { case 1 show ?case by simp }
  { case 2 show ?case by simp }
  { case 3 show ?case by simp }
next
  case (Cons sp sps)
  { case 1 show ?case by (simp add: Cons.IH(1) add_import_frame(1)) }
  { case 2 show ?case by (simp add: Cons.IH(2) add_import_frame(2)) }
  { case 3 show ?case
      using Cons.IH(3) [of "add_import sp st"] add_import_frame(3) [of st sp] by auto }
qed

lemma ImportDeclaration_B_frame:
  "reportsB (ImportDeclaration_B st v) = reportsB st"
  "authenticatedHandlerFunctions (ImportDeclaration_B st v) = authenticatedHandlerFunctions st"
  "authenticatedImports st \<subseteq> authenticatedImports (ImportDeclaration_B st v)"
proof -
  obtain a n ps where v: "v = (a, n, ps)" by (cases v)
  show "reportsB (ImportDeclaration_B st v) = reportsB st"
    unfolding v by (cases n) (simp_all add: fold_add_import_frame)
  show "authenticatedHandlerFunctions (ImportDeclaration_B st v) = authenticatedHandlerFunctions st"
    unfolding v by (cases n) (simp_all add: fold_add_import_frame)
  show "authenticatedImports st \<subseteq> authenticatedImports (ImportDeclaration_B st v)"
    unfolding v by (cases n) (simp_all add: fold_add_import_frame)
qed

lemma mark_handler_frame:
  "reportsB (mark_handler obj e st) = reportsB st"
  "authenticatedImports (mark_handler obj e st) = authenticatedImports st"
proof -
  obtain i n where e: "e = (i, n)" by (cases e)
  show "reportsB (mark_handler obj e st) = reportsB st"
    unfolding e by (cases n) simp_all
  show "authenticatedImports (mark_handler obj e st) = authenticatedImports st"
    unfolding e by (cases n) simp_all
qed

lemma CallExpression_B_frame:
  "reportsB (CallExpression_B st v) = reportsB st"
  "authenticatedImports (CallExpression_B st v) = authenticatedImports st"
proof -
  obtain a n ps where v: "v = (a, n, ps)" by (cases v)
  show "reportsB (CallExpression_B st v) = reportsB st"
    unfolding v
    by (rule CallExpression_B.cases [of "(st, a, n, ps)"])
      (simp_all add: mark_handler_frame split: list.splits node.splits option.splits)
  show "authenticatedImports (CallExpression_B st v) = authenticatedImports st"
    unfolding v
    by (rule CallExpression_B.cases [of "(st, a, n, ps)"])
      (simp_all add: mark_handler_frame split: list.splits node.splits option.splits)
qed

text \<open>What a call registers.\<close>

lemma registers_iff:
  "registers st v h =
     (\<exists>w properties rest n key fn.
        v_node v = CallExpression (Identifier w) (ObjectExpression properties # rest) \<and>
        w \<in> authenticatedImports st \<and>
        find_from is_handler_property 0 properties = Some (n, Property key fn) \<and>
        is_function_literal fn \<and>
        h = value_addr (property_addr (argument_addr (v_addr v) 0) n))"
  unfolding registers_def
  by (auto split: node.splits list.splits option.splits prod.splits)

lemma mark_handler_handlers:
  "authenticatedHandlerFunctions (mark_handler obj (i, n) st) =
     authenticatedHandlerFunctions st \<union>
       {h. \<exists>key fn. n = Property key fn \<and> is_function_literal fn \<and>
            h = value_addr (property_addr obj i)}"
  by (cases n) auto

lemma CallExpression_B_other:
  assumes "\<not> (\<exists>w properties rest.
              n = CallExpression (Identifier w) (ObjectExpression properties # rest) \<and>
              w \<in> authenticatedImports st)"
  shows "CallExpression_B st (a, n, ps) = st"
proof (cases n)
  case (CallExpression callee args)
  show ?thesis
  proof (cases callee)
    case (Identifier w)
    show ?thesis
    proof (cases "w \<in> authenticatedImports st")
      case False
      then show ?thesis unfolding CallExpression Identifier by simp
    next
      case True
      with assms have shape: "\<And>properties rest. args \<noteq> ObjectExpression properties # rest"
        unfolding CallExpression Identifier by simp
      show ?thesis
      proof (cases args)
        case Nil
        then show ?thesis unfolding CallExpression Identifier by simp
      next
        case (Cons arg rest)
        with shape have "\<And>properties. arg \<noteq> ObjectExpression properties" by blast
        then show ?thesis unfolding CallExpression Identifier Cons by (cases arg) auto
      qed
    qed
  qed (simp_all add: CallExpression)
qed simp_all

lemma CallExpression_B_handlers:
  "authenticatedHandlerFunctions (CallExpression_B st v) =
     authenticatedHandlerFunctions st \<union> {h. registers st v h}"
proof -
  obtain a n ps where v: "v = (a, n, ps)" by (cases v)
  show ?thesis
  proof (cases "\<exists>w properties rest.
              n = CallExpression (Identifier w) (ObjectExpression properties # rest) \<and>
              w \<in> authenticatedImports st")
    case False
    then have "{h. registers st v h} = {}"
      unfolding registers_iff v v_node_def by auto
    with False show ?thesis unfolding v by (simp add: CallExpression_B_other)
  next
    case True
    then obtain w properties rest where
      n: "n = CallExpression (Identifier w) (ObjectExpression properties # rest)"
      and w: "w \<in> authenticatedImports st" by blast
    show ?thesis
    proof (cases "find_from is_handler_property 0 properties")
      case None
      then show ?thesis unfolding v n registers_iff v_node_def using w by simp
    next
      case (Some e)
      obtain i m where e: "e = (i, m)" by (cases e)
      show ?thesis
        unfolding v n registers_iff v_node_def v_addr_def using w Some e
        by (auto simp: mark_handler_handlers)
    qed
  qed
qed


lemma identifier_named_iff: "identifier_named s n = (n = Identifier s)"
  by (cases n) auto

lemma pattern_iff:
  "(identifier_named ''getUserIdentity'' prop \<and> is_ctx_auth obj) =
   (MemberExpression obj prop = forbidden_chain)"
  unfolding forbidden_chain_def identifier_named_iff
  by (cases obj) (simp_all add: identifier_named_iff conj_commute)

lemma inside_handler_iff:
  "inside_handler hs ps = (\<exists>e\<in>set ps. is_function_literal (snd e) \<and> fst e \<in> hs)"
  by (induction hs ps rule: inside_handler.induct) auto

lemma inside_handler_enclosing:
  "inside_handler hs (v_parents v) = (set (enclosing_functions v) \<inter> hs \<noteq> {})"
  unfolding inside_handler_iff enclosing_functions_def by force

lemma called_iff:
  "called a ps = (\<exists>e\<in>set ps. is_CallExpression (snd e) \<and> callee_addr (fst e) = a)"
  by (induction a ps rule: called.induct) auto

lemma linked_lengths:
  "linked b m qs \<Longrightarrow> e \<in> set qs \<Longrightarrow> length (fst e) < length b"
  using linked_strict_prefix [of b m qs "fst e" "snd e"]
  by (auto simp: strict_prefix_def prefix_def)

lemma called_is_callee:
  assumes "linked a n ps"
  shows "called a ps = is_callee (a, n, ps)"
proof (cases ps)
  case Nil
  then show ?thesis by (simp add: is_callee_def v_parents_def)
next
  case (Cons e rest)
  obtain p parent where e: "e = (p, parent)" by (cases e)
  from assms obtain i where a: "a = p @ [i]" and l: "linked p parent rest"
    unfolding Cons e by auto
  have far: "callee_addr (fst x) \<noteq> a" if "x \<in> set rest" for x
  proof -
    from linked_lengths [OF l that] have "length (fst x) < length p" .
    then show ?thesis unfolding a callee_addr_def by auto
  qed
  then have rest: "\<not> called a rest" unfolding called_iff by blast
  show ?thesis
    unfolding Cons e using rest
    by (cases parent) (simp_all add: is_callee_def v_parents_def v_addr_def callee_addr_def)
qed

lemma MemberExpression_B_frame:
  "authenticatedHandlerFunctions (MemberExpression_B st v) = authenticatedHandlerFunctions st"
  "authenticatedImports (MemberExpression_B st v) = authenticatedImports st"
proof -
  obtain a n ps where v: "v = (a, n, ps)" by (cases v)
  show "authenticatedHandlerFunctions (MemberExpression_B st v) = authenticatedHandlerFunctions st"
    unfolding v by (cases n) (simp_all add: reportB_def)
  show "authenticatedImports (MemberExpression_B st v) = authenticatedImports st"
    unfolding v by (cases n) (simp_all add: reportB_def)
qed

lemma MemberExpression_B_reports:
  "reportsB (MemberExpression_B st (a, n, ps)) =
     reportsB st @
       (if n = forbidden_chain \<and> called a ps \<and>
           inside_handler (authenticatedHandlerFunctions st) ps
        then [\<lparr>d_node = a, d_messageId = useContextIdentity\<rparr>] else [])"
proof (cases n)
  case (MemberExpression ob pr)
  show ?thesis
    unfolding MemberExpression pattern_iff [symmetric]
    by (simp add: reportB_def)
qed (simp_all add: forbidden_chain_def)

lemma dispatch_B_reports:
  "\<exists>ds. reportsB (dispatch (create_B filename) v st) = reportsB st @ ds \<and>
     (\<forall>d\<in>set ds. d_node d = v_addr v)"
proof (cases "isAuthFile filename")
  case True
  then show ?thesis by (simp add: dispatch_B_exempt)
next
  case False
  obtain a n ps where v: "v = (a, n, ps)" by (cases v)
  show ?thesis
    unfolding v dispatch_B [OF False]
    by (cases n)
      (simp_all only: node.case ImportDeclaration_B_frame CallExpression_B_frame
        MemberExpression_B_reports v_addr_def fst_conv, auto)
qed

lemma ruleB_at:
  assumes k: "k < length (traversal program)"
    and dv: "reportsB (dispatch (create_B filename) (visited program k)
                (stateB_at filename program k)) =
             reportsB (stateB_at filename program k) @ dv"
  shows "filter (\<lambda>d. d_node d = v_addr (visited program k)) (ruleB filename program) =
         filter (\<lambda>d. d_node d = v_addr (visited program k)) dv"
proof -
  have "filter (\<lambda>d. d_node d = v_addr (visited program k))
          (reportsB (run (create_B filename)
             (take k (traversal program) @ visited program k # drop (Suc k) (traversal program))
             initB)) =
        filter (\<lambda>d. d_node d = v_addr (visited program k)) (reportsB initB) @
        filter (\<lambda>d. d_node d = v_addr (visited program k)) dv"
    by (rule run_reports_at [where reports = reportsB and loc = v_addr,
          OF dispatch_B_reports dv [unfolded stateB_at_def]
             traversal_addr_fresh(1) [OF k] traversal_addr_fresh(2) [OF k]])
  then show ?thesis
    using traversal_split [OF k] by (simp add: ruleB_def initB_def)
qed

lemma stateB_at_Suc:
  assumes "k < length (traversal program)"
  shows "stateB_at filename program (Suc k) =
         dispatch (create_B filename) (visited program k) (stateB_at filename program k)"
  using assms
  by (simp add: stateB_at_def take_Suc_conv_app_nth run_append run_Cons run_Nil visited_def)

lemma stateB_at_exempt: "isAuthFile filename \<Longrightarrow> stateB_at filename program k = initB"
  by (simp add: stateB_at_def create_B_def run_no_listeners)

lemma dispatch_B_handlers:
  assumes "\<not> isAuthFile filename"
  shows "authenticatedHandlerFunctions (dispatch (create_B filename) v st) =
         authenticatedHandlerFunctions st \<union> {h. registers st v h}"
proof -
  obtain a n ps where v: "v = (a, n, ps)" by (cases v)
  show ?thesis
  proof (cases "is_CallExpression n")
    case True
    then obtain callee args where "n = CallExpression callee args" by (cases n) simp_all
    then show ?thesis
      unfolding v dispatch_B [OF assms] by (simp only: node.case CallExpression_B_handlers)
  next
    case False
    then have "{h. registers st (a, n, ps) h} = {}"
      unfolding registers_iff v_node_def by auto
    moreover from False have "authenticatedHandlerFunctions (dispatch (create_B filename) (a, n, ps) st) =
        authenticatedHandlerFunctions st"
      unfolding dispatch_B [OF assms]
      by (cases n)
        (simp_all only: node.case ImportDeclaration_B_frame MemberExpression_B_frame
          is_CallExpression.simps not_True_eq_False)
    ultimately show ?thesis unfolding v by simp
  qed
qed

lemma stateB_at_handlers_mono:
  assumes "j \<le> k" "k \<le> length (traversal program)"
  shows "authenticatedHandlerFunctions (stateB_at filename program j) \<subseteq>
         authenticatedHandlerFunctions (stateB_at filename program k)"
proof (cases "isAuthFile filename")
  case True
  then show ?thesis by (simp add: stateB_at_exempt)
next
  case False
  from assms show ?thesis
  proof (induction k)
    case 0
    then show ?case by simp
  next
    case (Suc k)
    show ?case
    proof (cases "j = Suc k")
      case True
      then show ?thesis by simp
    next
      case ne: False
      with Suc.prems have "j \<le> k" "k < length (traversal program)" by simp_all
      with Suc.IH have "authenticatedHandlerFunctions (stateB_at filename program j) \<subseteq>
         authenticatedHandlerFunctions (stateB_at filename program k)" by simp
      then show ?thesis
        unfolding stateB_at_Suc [OF \<open>k < length (traversal program)\<close>]
          dispatch_B_handlers [OF False] by blast
    qed
  qed
qed

lemma stateB_at_handlers_origin:
  assumes "h \<in> authenticatedHandlerFunctions (stateB_at filename program k)"
    "k \<le> length (traversal program)"
  shows "\<not> isAuthFile filename \<and>
         (\<exists>j<k. registers (stateB_at filename program j) (visited program j) h)"
proof (cases "isAuthFile filename")
  case True
  with assms(1) show ?thesis by (simp add: stateB_at_exempt initB_def)
next
  case False
  from assms have "\<exists>j<k. registers (stateB_at filename program j) (visited program j) h"
  proof (induction k)
    case 0
    then show ?case by (simp add: stateB_at_def run_Nil initB_def)
  next
    case (Suc k)
    then have k: "k < length (traversal program)" by simp
    from Suc.prems(1) have "h \<in> authenticatedHandlerFunctions (stateB_at filename program k) \<or>
        registers (stateB_at filename program k) (visited program k) h"
      unfolding stateB_at_Suc [OF k] dispatch_B_handlers [OF False] by simp
    then show ?case
    proof
      assume "h \<in> authenticatedHandlerFunctions (stateB_at filename program k)"
      with Suc.IH k obtain j where "j < k"
        "registers (stateB_at filename program j) (visited program j) h" by auto
      then show ?thesis using less_Suc_eq by blast
    next
      assume "registers (stateB_at filename program k) (visited program k) h"
      then show ?thesis by blast
    qed
  qed
  with False show ?thesis by simp
qed

lemma registers_nonexempt:
  assumes "registers (stateB_at filename program i) v h"
  shows "\<not> isAuthFile filename"
proof
  assume "isAuthFile filename"
  with assms show False
    unfolding registers_iff by (simp add: stateB_at_exempt initB_def)
qed

lemma stateB_at_registered:
  assumes "i < length (traversal program)"
    and "registers (stateB_at filename program i) (visited program i) h"
  shows "h \<in> authenticatedHandlerFunctions (stateB_at filename program (Suc i))"
  unfolding stateB_at_Suc [OF assms(1)] dispatch_B_handlers [OF registers_nonexempt [OF assms(2)]]
  using assms(2) by simp

section \<open>Rule B: which chains are flagged\<close>

lemma ruleB_flag_at:
  assumes k: "k < length (traversal program)"
  shows "filter (\<lambda>d. d_node d = v_addr (visited program k)) (ruleB filename program) =
     (if v_node (visited program k) = forbidden_chain \<and> is_callee (visited program k) \<and>
         set (enclosing_functions (visited program k)) \<inter>
           authenticatedHandlerFunctions (stateB_at filename program k) \<noteq> {}
      then [\<lparr>d_node = v_addr (visited program k), d_messageId = useContextIdentity\<rparr>]
      else [])"
proof -
  let ?st = "stateB_at filename program k"
  obtain a n ps where v: "visited program k = (a, n, ps)" by (cases "visited program k")
  have l: "linked a n ps"
    using traversal_linked [OF k] by (simp add: v v_addr_def v_node_def v_parents_def)
  show ?thesis
  proof (cases "isAuthFile filename")
    case True
    have "reportsB (dispatch (create_B filename) (visited program k) ?st) = reportsB ?st @ []"
      using True by (simp add: dispatch_B_exempt)
    from ruleB_at [OF k this] True show ?thesis
      by (simp add: stateB_at_exempt initB_def)
  next
    case False
    let ?dv = "if n = forbidden_chain \<and> called a ps \<and>
           inside_handler (authenticatedHandlerFunctions ?st) ps
        then [\<lparr>d_node = a, d_messageId = useContextIdentity\<rparr>] else []"
    have "reportsB (dispatch (create_B filename) (a, n, ps) ?st) = reportsB ?st @ ?dv"
    proof (cases "\<exists>ob pr. n = MemberExpression ob pr")
      case True
      then show ?thesis
        unfolding dispatch_B [OF False]
        by (auto simp only: node.case MemberExpression_B_reports)
    next
      case other: False
      then have "n \<noteq> forbidden_chain" unfolding forbidden_chain_def by blast
      moreover from other have "reportsB (dispatch (create_B filename) (a, n, ps) ?st) = reportsB ?st"
        unfolding dispatch_B [OF False]
        by (cases n) (simp_all only: node.case ImportDeclaration_B_frame CallExpression_B_frame, blast)
      ultimately show ?thesis by simp
    qed
    from ruleB_at [OF k this [folded v]]
    have "filter (\<lambda>d. d_node d = v_addr (visited program k)) (ruleB filename program) =
          filter (\<lambda>d. d_node d = a) ?dv" by (simp add: v v_addr_def)
    also have "\<dots> = ?dv" by simp
    also have "\<dots> =
     (if v_node (visited program k) = forbidden_chain \<and> is_callee (visited program k) \<and>
         set (enclosing_functions (visited program k)) \<inter>
           authenticatedHandlerFunctions (stateB_at filename program k) \<noteq> {}
      then [\<lparr>d_node = v_addr (visited program k), d_messageId = useContextIdentity\<rparr>]
      else [])"
      unfolding called_is_callee [OF l] v
        inside_handler_enclosing [of _ "(a, n, ps)", unfolded v_parents_def snd_conv]
      by (simp only: v_addr_def v_node_def fst_conv snd_conv)
    finally show ?thesis .
  qed
qed


lemma is_callee_parent:
  assumes "linked a n ps" "is_callee (a, n, ps)"
  shows "\<exists>p args rest. ps = (p, CallExpression n args) # rest \<and> a = callee_addr p"
proof (cases ps)
  case Nil
  with assms(2) show ?thesis by (simp add: is_callee_def v_parents_def)
next
  case (Cons e rest)
  obtain p parent where e: "e = (p, parent)" by (cases e)
  from assms(2) obtain callee args where parent: "parent = CallExpression callee args"
    and a: "a = callee_addr p"
    unfolding Cons e by (cases parent) (simp_all add: is_callee_def v_parents_def v_addr_def)
  from assms(1) have "callee = n"
    unfolding Cons e parent a callee_addr_def by auto
  then show ?thesis unfolding Cons e parent using a by simp
qed

text \<open>
  Claim C2, as amended. Take a visited node that is the forbidden chain and the callee of
  its parent call. The rule reports it exactly when the address of some function literal
  enclosing it, not only of the nearest one, is registered at the time the node is
  visited.
\<close>

theorem ruleB_flags_iff_enclosing_registered:
  assumes "k < length (traversal program)"
    and "v_node (visited program k) = forbidden_chain"
    and "is_callee (visited program k)"
  shows "(\<lparr>d_node = v_addr (visited program k), d_messageId = useContextIdentity\<rparr>
            \<in> set (ruleB filename program)) =
         (set (enclosing_functions (visited program k)) \<inter>
            authenticatedHandlerFunctions (stateB_at filename program k) \<noteq> {})"
proof -
  let ?d = "\<lparr>d_node = v_addr (visited program k), d_messageId = useContextIdentity\<rparr>"
  have "(?d \<in> set (ruleB filename program)) =
        (?d \<in> set (filter (\<lambda>e. d_node e = v_addr (visited program k))
                      (ruleB filename program)))" by simp
  also have "\<dots> = (set (enclosing_functions (visited program k)) \<inter>
            authenticatedHandlerFunctions (stateB_at filename program k) \<noteq> {})"
    unfolding ruleB_flag_at [OF assms(1)] using assms(2,3) by simp
  finally show ?thesis .
qed

text \<open>In \<open>scenario3\<close> the chain is the 21st node visited.\<close>

theorem ruleB_flags_iff_enclosing_registered_witness:
  "20 < length (traversal scenario3) \<and>
   v_node (visited scenario3 20) = forbidden_chain \<and>
   is_callee (visited scenario3 20) \<and>
   set (enclosing_functions (visited scenario3 20)) \<inter>
     authenticatedHandlerFunctions (stateB_at ''convex/notes.ts'' scenario3 20) \<noteq> {} \<and>
   \<lparr>d_node = v_addr (visited scenario3 20), d_messageId = useContextIdentity\<rparr>
     \<in> set (ruleB ''convex/notes.ts'' scenario3)"
proof -
  have k: "20 < length (traversal scenario3)" by code_simp
  have n: "v_node (visited scenario3 20) = forbidden_chain" by code_simp
  have c: "is_callee (visited scenario3 20)" by code_simp
  have e: "set (enclosing_functions (visited scenario3 20)) \<inter>
     authenticatedHandlerFunctions (stateB_at ''convex/notes.ts'' scenario3 20) \<noteq> {}"
    by code_simp
  from ruleB_flags_iff_enclosing_registered [OF k n c, of "''convex/notes.ts''"] e
  have "\<lparr>d_node = v_addr (visited scenario3 20), d_messageId = useContextIdentity\<rparr>
     \<in> set (ruleB ''convex/notes.ts'' scenario3)" by simp
  with k n c e show ?thesis by simp
qed

text \<open>
  Claim C2 as stated fails in \<open>scenario3\<close>: the nearest function literal around the
  forbidden call is the helper, which is not registered; only the handler further out
  is. The call is reported all the same.
\<close>

theorem nearest_function_not_registered_yet_flagged:
  "v_node (visited scenario3 20) = forbidden_chain \<and>
   is_callee (visited scenario3 20) \<and>
   enclosing_functions (visited scenario3 20) =
     [[1, 0, 1, 1, 1, 1, 0, 0, 1], [1, 0, 1, 1, 1]] \<and>
   authenticatedHandlerFunctions (stateB_at ''convex/notes.ts'' scenario3 20) =
     {[1, 0, 1, 1, 1]} \<and>
   hd (enclosing_functions (visited scenario3 20)) \<notin>
     authenticatedHandlerFunctions (stateB_at ''convex/notes.ts'' scenario3 20) \<and>
   ruleB ''convex/notes.ts'' scenario3 =
     [\<lparr>d_node = v_addr (visited scenario3 20), d_messageId = useContextIdentity\<rparr>]"
proof -
  have n: "v_node (visited scenario3 20) = forbidden_chain" by code_simp
  have c: "is_callee (visited scenario3 20)" by code_simp
  have e: "enclosing_functions (visited scenario3 20) =
     [[1, 0, 1, 1, 1, 1, 0, 0, 1], [1, 0, 1, 1, 1]]" by code_simp
  have h: "authenticatedHandlerFunctions (stateB_at ''convex/notes.ts'' scenario3 20) =
     {[1, 0, 1, 1, 1]}" by code_simp
  have x: "hd (enclosing_functions (visited scenario3 20)) \<notin>
     authenticatedHandlerFunctions (stateB_at ''convex/notes.ts'' scenario3 20)" by code_simp
  have r: "ruleB ''convex/notes.ts'' scenario3 =
     [\<lparr>d_node = v_addr (visited scenario3 20), d_messageId = useContextIdentity\<rparr>]"
    by code_simp
  from n c e h x r show ?thesis by simp
qed

text \<open>
  Claim C6. A diagnostic of the rule located at a visited node implies that the node is
  the chain \<^verbatim>\<open>ctx.auth.getUserIdentity\<close> and that its parent is a call expression whose
  callee is this very node. So a chain that is not called is never reported, wherever
  it stands.
\<close>

theorem ruleB_flags_only_callee:
  assumes k: "k < length (traversal program)"
  shows "(\<exists>m. \<lparr>d_node = v_addr (visited program k), d_messageId = m\<rparr>
              \<in> set (ruleB filename program)) \<longrightarrow>
         v_node (visited program k) = forbidden_chain \<and>
         (\<exists>p args rest.
            v_parents (visited program k) = (p, CallExpression forbidden_chain args) # rest \<and>
            v_addr (visited program k) = callee_addr p)"
proof
  assume "\<exists>m. \<lparr>d_node = v_addr (visited program k), d_messageId = m\<rparr>
              \<in> set (ruleB filename program)"
  then have "filter (\<lambda>d. d_node d = v_addr (visited program k)) (ruleB filename program) \<noteq> []"
    unfolding in_reports_iff .
  then have n: "v_node (visited program k) = forbidden_chain"
    and c: "is_callee (visited program k)"
    unfolding ruleB_flag_at [OF k] by (simp_all split: if_splits)
  obtain a n' ps where v: "visited program k = (a, n', ps)" by (cases "visited program k")
  have "linked a n' ps"
    using traversal_linked [OF k] by (simp add: v v_addr_def v_node_def v_parents_def)
  from is_callee_parent [OF this c [unfolded v]] n
  show "v_node (visited program k) = forbidden_chain \<and>
         (\<exists>p args rest.
            v_parents (visited program k) = (p, CallExpression forbidden_chain args) # rest \<and>
            v_addr (visited program k) = callee_addr p)"
    by (simp add: v v_addr_def v_node_def v_parents_def)
qed

text \<open>
  In \<open>scenario_reference\<close> the chain stands inside a registered handler but is not
  called: no diagnostic.
\<close>

theorem ruleB_flags_only_callee_witness:
  "17 < length (traversal scenario_reference) \<and>
   v_node (visited scenario_reference 17) = forbidden_chain \<and>
   \<not> is_callee (visited scenario_reference 17) \<and>
   set (enclosing_functions (visited scenario_reference 17)) \<inter>
     authenticatedHandlerFunctions (stateB_at ''convex/notes.ts'' scenario_reference 17) \<noteq> {} \<and>
   \<not> (\<exists>m. \<lparr>d_node = v_addr (visited scenario_reference 17), d_messageId = m\<rparr>
              \<in> set (ruleB ''convex/notes.ts'' scenario_reference))"
proof -
  have k: "17 < length (traversal scenario_reference)" by code_simp
  have n: "v_node (visited scenario_reference 17) = forbidden_chain" by code_simp
  have c: "\<not> is_callee (visited scenario_reference 17)" by code_simp
  have e: "set (enclosing_functions (visited scenario_reference 17)) \<inter>
     authenticatedHandlerFunctions (stateB_at ''convex/notes.ts'' scenario_reference 17) \<noteq> {}"
    by code_simp
  have "\<not> (\<exists>m. \<lparr>d_node = v_addr (visited scenario_reference 17), d_messageId = m\<rparr>
              \<in> set (ruleB ''convex/notes.ts'' scenario_reference))"
  proof
    assume "\<exists>m. \<lparr>d_node = v_addr (visited scenario_reference 17), d_messageId = m\<rparr>
              \<in> set (ruleB ''convex/notes.ts'' scenario_reference)"
    with ruleB_flags_only_callee [OF k, of "''convex/notes.ts''"]
    obtain p args rest where
      "v_parents (visited scenario_reference 17) = (p, CallExpression forbidden_chain args) # rest"
      "v_addr (visited scenario_reference 17) = callee_addr p" by blast
    then have "is_callee (visited scenario_reference 17)" by (simp add: is_callee_def)
    with c show False ..
  qed
  with k n c e show ?thesis by simp
qed

section \<open>Rule B: registration comes first\<close>

lemma registers_addr:
  assumes "registers st v h"
  shows "\<exists>n. h = v_addr v @ [1, n, 1]"
  using assms unfolding registers_iff
  by (auto simp: value_addr_def property_addr_def argument_addr_def)

lemma enclosing_is_parent:
  assumes "h \<in> set (enclosing_functions v)"
  shows "\<exists>f. (h, f) \<in> set (v_parents v) \<and> is_function_literal f"
  using assms unfolding enclosing_functions_def by auto

lemma registered_only_at:
  assumes i: "i < length (traversal program)"
    and reg: "registers (stateB_at filename program i) (visited program i) h"
  shows "h \<notin> authenticatedHandlerFunctions (stateB_at filename program i)"
proof
  assume "h \<in> authenticatedHandlerFunctions (stateB_at filename program i)"
  with i obtain j where j: "j < i"
    "registers (stateB_at filename program j) (visited program j) h"
    using stateB_at_handlers_origin [of h filename program i] by auto
  from registers_addr [OF reg] registers_addr [OF j(2)]
  have "v_addr (visited program j) = v_addr (visited program i)" by auto
  with i j(1) have "j = i" by (intro traversal_addr_inj) simp_all
  with j(1) show False by simp
qed

lemma inside_registered:
  assumes i: "i < length (traversal program)"
    and reg: "registers (stateB_at filename program i) (visited program i) h"
    and k: "k < length (traversal program)"
    and inside: "h \<in> set (enclosing_functions (visited program k))"
  shows "i < k" and "h \<in> authenticatedHandlerFunctions (stateB_at filename program k)"
proof -
  from enclosing_is_parent [OF inside] obtain f where
    f: "(h, f) \<in> set (v_parents (visited program k))" by blast
  from linked_strict_prefix [OF traversal_linked [OF k] f]
  have sp: "strict_prefix h (v_addr (visited program k))" .
  from registers_addr [OF reg] obtain n where h: "h = v_addr (visited program i) @ [1, n, 1]" ..
  from sp have ph: "prefix (v_addr (visited program i) @ [1, n, 1]) (v_addr (visited program k))"
    unfolding h by (simp add: strict_prefix_def)
  then have p: "prefix (v_addr (visited program i)) (v_addr (visited program k))"
    by (rule append_prefixD)
  have ne: "v_addr (visited program i) \<noteq> v_addr (visited program k)"
  proof
    assume "v_addr (visited program i) = v_addr (visited program k)"
    with ph have "prefix (v_addr (visited program k) @ [1, n, 1]) (v_addr (visited program k))"
      by simp
    from prefix_length_le [OF this] show False by simp
  qed
  show ik: "i < k"
  proof (rule ccontr)
    assume "\<not> i < k"
    then consider "k = i" | "k < i" by linarith
    then show False
    proof cases
      case 1
      with ne show False by simp
    next
      case 2
      from traversal_earlier [OF 2 i] p show False by simp
    qed
  qed
  from stateB_at_registered [OF i reg]
  have "h \<in> authenticatedHandlerFunctions (stateB_at filename program (Suc i))" .
  moreover have "authenticatedHandlerFunctions (stateB_at filename program (Suc i)) \<subseteq>
      authenticatedHandlerFunctions (stateB_at filename program k)"
    using ik k by (intro stateB_at_handlers_mono) simp_all
  ultimately show "h \<in> authenticatedHandlerFunctions (stateB_at filename program k)" by blast
qed

text \<open>
  Claim C7. Let the visit of a wrapper call register the function literal at \<open>h\<close>. The
  address is not registered before that visit and is registered right after it. Every
  node that has this function literal among its enclosing ones is visited later than the
  call, and \<open>h\<close> is registered when that node is visited. So if the node is the forbidden
  chain, called, it is reported: the single forward pass misses none.
\<close>

theorem registration_precedes_handler_body:
  assumes i: "i < length (traversal program)"
    and reg: "registers (stateB_at filename program i) (visited program i) h"
    and k: "k < length (traversal program)"
    and inside: "h \<in> set (enclosing_functions (visited program k))"
  shows "h \<notin> authenticatedHandlerFunctions (stateB_at filename program i) \<and>
         h \<in> authenticatedHandlerFunctions (stateB_at filename program (Suc i)) \<and>
         i < k \<and>
         h \<in> authenticatedHandlerFunctions (stateB_at filename program k) \<and>
         (v_node (visited program k) = forbidden_chain \<and> is_callee (visited program k) \<longrightarrow>
            \<lparr>d_node = v_addr (visited program k), d_messageId = useContextIdentity\<rparr>
              \<in> set (ruleB filename program))"
proof (intro conjI impI)
  show "h \<notin> authenticatedHandlerFunctions (stateB_at filename program i)"
    using i reg by (rule registered_only_at)
  show "h \<in> authenticatedHandlerFunctions (stateB_at filename program (Suc i))"
    using i reg by (rule stateB_at_registered)
  show "i < k" using i reg k inside by (rule inside_registered(1))
  show hk: "h \<in> authenticatedHandlerFunctions (stateB_at filename program k)"
    using i reg k inside by (rule inside_registered(2))
  assume "v_node (visited program k) = forbidden_chain \<and> is_callee (visited program k)"
  with hk inside
  have "filter (\<lambda>d. d_node d = v_addr (visited program k)) (ruleB filename program) =
      [\<lparr>d_node = v_addr (visited program k), d_messageId = useContextIdentity\<rparr>]"
    unfolding ruleB_flag_at [OF k] by auto
  then have "\<lparr>d_node = v_addr (visited program k), d_messageId = useContextIdentity\<rparr>
     \<in> set (filter (\<lambda>d. d_node d = v_addr (visited program k)) (ruleB filename program))"
    by simp
  then show "\<lparr>d_node = v_addr (visited program k), d_messageId = useContextIdentity\<rparr>
              \<in> set (ruleB filename program)" by simp
qed

text \<open>
  In \<open>scenario2\<close> the wrapper call is the fourth node visited, the forbidden chain the
  18th.
\<close>

theorem registration_precedes_handler_body_witness:
  "3 < length (traversal scenario2) \<and>
   registers (stateB_at ''convex/notes.ts'' scenario2 3) (visited scenario2 3) [1, 0, 1, 1, 1] \<and>
   17 < length (traversal scenario2) \<and>
   [1, 0, 1, 1, 1] \<in> set (enclosing_functions (visited scenario2 17)) \<and>
   v_node (visited scenario2 17) = forbidden_chain \<and>
   is_callee (visited scenario2 17) \<and>
   [1, 0, 1, 1, 1] \<notin> authenticatedHandlerFunctions (stateB_at ''convex/notes.ts'' scenario2 3) \<and>
   [1, 0, 1, 1, 1] \<in> authenticatedHandlerFunctions (stateB_at ''convex/notes.ts'' scenario2 4) \<and>
   [1, 0, 1, 1, 1] \<in> authenticatedHandlerFunctions (stateB_at ''convex/notes.ts'' scenario2 17) \<and>
   \<lparr>d_node = v_addr (visited scenario2 17), d_messageId = useContextIdentity\<rparr>
     \<in> set (ruleB ''convex/notes.ts'' scenario2)"
proof -
  have i: "3 < length (traversal scenario2)" by code_simp
  have reg: "registers (stateB_at ''convex/notes.ts'' scenario2 3) (visited scenario2 3)
      [1, 0, 1, 1, 1]" by code_simp
  have k: "17 < length (traversal scenario2)" by code_simp
  have inside: "[1, 0, 1, 1, 1] \<in> set (enclosing_functions (visited scenario2 17))"
    by code_simp
  have n: "v_node (visited scenario2 17) = forbidden_chain" by code_simp
  have c: "is_callee (visited scenario2 17)" by code_simp
  from registration_precedes_handler_body [OF i reg k inside] n c i reg k inside
  show ?thesis by simp
qed

text \<open>
  Claim C3. Let a wrapper call register the handler at \<open>h\<close>, and let the forbidden chain
  be called inside a helper function literal \<open>c\<close> that is itself enclosed by the handler
  (\<open>h\<close> is among the function literals further out). Then the rule's report list holds
  exactly one diagnostic at that chain, with the message \<^verbatim>\<open>useContextIdentity\<close>.
\<close>

theorem nested_helper_flagged_once:
  assumes i: "i < length (traversal program)"
    and reg: "registers (stateB_at filename program i) (visited program i) h"
    and k: "k < length (traversal program)"
    and chain: "v_node (visited program k) = forbidden_chain"
    and callee: "is_callee (visited program k)"
    and helper: "enclosing_functions (visited program k) = c # cs"
    and handler: "h \<in> set cs"
  shows "filter (\<lambda>d. d_node d = v_addr (visited program k)) (ruleB filename program) =
         [\<lparr>d_node = v_addr (visited program k), d_messageId = useContextIdentity\<rparr>]"
proof -
  from helper handler have inside: "h \<in> set (enclosing_functions (visited program k))" by simp
  from inside_registered(2) [OF i reg k inside] inside chain callee
  show ?thesis unfolding ruleB_flag_at [OF k] by auto
qed

text \<open>\<open>scenario3\<close>: the helper at depth nine, the handler at depth five.\<close>

theorem nested_helper_flagged_once_witness:
  "3 < length (traversal scenario3) \<and>
   registers (stateB_at ''convex/notes.ts'' scenario3 3) (visited scenario3 3) [1, 0, 1, 1, 1] \<and>
   20 < length (traversal scenario3) \<and>
   v_node (visited scenario3 20) = forbidden_chain \<and>
   is_callee (visited scenario3 20) \<and>
   enclosing_functions (visited scenario3 20) =
     [1, 0, 1, 1, 1, 1, 0, 0, 1] # [[1, 0, 1, 1, 1]] \<and>
   filter (\<lambda>d. d_node d = v_addr (visited scenario3 20)) (ruleB ''convex/notes.ts'' scenario3) =
     [\<lparr>d_node = v_addr (visited scenario3 20), d_messageId = useContextIdentity\<rparr>]"
proof -
  have i: "3 < length (traversal scenario3)" by code_simp
  have reg: "registers (stateB_at ''convex/notes.ts'' scenario3 3) (visited scenario3 3)
      [1, 0, 1, 1, 1]" by code_simp
  have k: "20 < length (traversal scenario3)" by code_simp
  have n: "v_node (visited scenario3 20) = forbidden_chain" by code_simp
  have c: "is_callee (visited scenario3 20)" by code_simp
  have e: "enclosing_functions (visited scenario3 20) =
     [1, 0, 1, 1, 1, 1, 0, 0, 1] # [[1, 0, 1, 1, 1]]" by code_simp
  have h: "[1, 0, 1, 1, 1] \<in> set [[1, 0, 1, 1, 1 :: nat]]" by simp
  from nested_helper_flagged_once [OF i reg k n c e h] i reg k n c e
  show ?thesis by simp
qed

section \<open>Rule B: handlers under a string-literal key\<close>

lemma find_from_Some:
  assumes "find_from P i xs = Some (n, x)"
  shows "i \<le> n \<and> n - i < length xs \<and> xs ! (n - i) = x \<and> P x"
  using assms
proof (induction xs arbitrary: i)
  case Nil
  then show ?case by simp
next
  case (Cons y ys)
  show ?case
  proof (cases "P y")
    case True
    with Cons.prems show ?thesis by simp
  next
    case False
    with Cons.prems have "find_from P (Suc i) ys = Some (n, x)" by simp
    from Cons.IH [OF this] show ?thesis by (auto simp: Suc_diff_le)
  qed
qed

lemma literal_key_never_registered:
  assumes i: "i < length (traversal program)"
    and call: "v_node (visited program i) = CallExpression callee (ObjectExpression properties # rest)"
    and key: "properties ! n = Property (Literal key) fn"
    and j: "j \<le> length (traversal program)"
  shows "value_addr (property_addr (argument_addr (v_addr (visited program i)) 0) n)
           \<notin> authenticatedHandlerFunctions (stateB_at filename program j)"
proof
  let ?h = "value_addr (property_addr (argument_addr (v_addr (visited program i)) 0) n)"
  assume "?h \<in> authenticatedHandlerFunctions (stateB_at filename program j)"
  from stateB_at_handlers_origin [OF this j] obtain j' where j': "j' < j"
    and reg: "registers (stateB_at filename program j') (visited program j') ?h" by blast
  from reg obtain w properties' rest' n' key' fn' where
    node: "v_node (visited program j') =
       CallExpression (Identifier w) (ObjectExpression properties' # rest')"
    and found: "find_from is_handler_property 0 properties' = Some (n', Property key' fn')"
    and h: "?h = value_addr (property_addr (argument_addr (v_addr (visited program j')) 0) n')"
    unfolding registers_iff by blast
  from h have addr: "v_addr (visited program j') = v_addr (visited program i)" and n': "n' = n"
    by (simp_all add: value_addr_def property_addr_def argument_addr_def)
  from j' j have "j' < length (traversal program)" by simp
  with i addr have "j' = i" by (intro traversal_addr_inj) simp_all
  with node call have "properties' = properties" by simp
  with find_from_Some [OF found] n' have "properties ! n = Property key' fn'"
    and "is_handler_property (Property key' fn')" by simp_all
  with key show False by simp
qed

text \<open>
  Claim C10, as amended. Let a call have an object literal as first argument and let
  its \<open>n\<close>-th property have a string-literal key and the value \<open>fn\<close>, at address \<open>h\<close>.
  Then \<open>h\<close> is never registered, at no moment of the pass. So a diagnostic at a node
  inside \<open>fn\<close> is never due to \<open>fn\<close>: it implies that another enclosing function
  literal is registered.
\<close>

theorem literal_key_handler_not_registered:
  assumes i: "i < length (traversal program)"
    and call: "v_node (visited program i) = CallExpression callee (ObjectExpression properties # rest)"
    and key: "properties ! n = Property (Literal key) fn"
    and h: "h = value_addr (property_addr (argument_addr (v_addr (visited program i)) 0) n)"
    and k: "k < length (traversal program)"
  shows "(\<forall>j\<le>length (traversal program).
            h \<notin> authenticatedHandlerFunctions (stateB_at filename program j)) \<and>
         ((\<exists>m. \<lparr>d_node = v_addr (visited program k), d_messageId = m\<rparr>
              \<in> set (ruleB filename program)) \<longrightarrow>
          (\<exists>c\<in>set (enclosing_functions (visited program k)).
             c \<noteq> h \<and> c \<in> authenticatedHandlerFunctions (stateB_at filename program k)))"
proof (intro conjI allI impI)
  fix j assume "j \<le> length (traversal program)"
  with i call key show "h \<notin> authenticatedHandlerFunctions (stateB_at filename program j)"
    unfolding h by (rule literal_key_never_registered)
next
  assume "\<exists>m. \<lparr>d_node = v_addr (visited program k), d_messageId = m\<rparr>
              \<in> set (ruleB filename program)"
  then have "filter (\<lambda>d. d_node d = v_addr (visited program k)) (ruleB filename program) \<noteq> []"
    unfolding in_reports_iff .
  then have "set (enclosing_functions (visited program k)) \<inter>
           authenticatedHandlerFunctions (stateB_at filename program k) \<noteq> {}"
    unfolding ruleB_flag_at [OF k] by (simp split: if_splits)
  then obtain c where c: "c \<in> set (enclosing_functions (visited program k))"
    "c \<in> authenticatedHandlerFunctions (stateB_at filename program k)" by blast
  from k have "k \<le> length (traversal program)" by simp
  with i call key have "h \<notin> authenticatedHandlerFunctions (stateB_at filename program k)"
    unfolding h by (rule literal_key_never_registered)
  with c have "c \<noteq> h" by blast
  with c show "\<exists>c\<in>set (enclosing_functions (visited program k)).
             c \<noteq> h \<and> c \<in> authenticatedHandlerFunctions (stateB_at filename program k)"
    by blast
qed


text \<open>In \<open>scenario_string_key\<close> nothing is registered and nothing reported.\<close>

theorem literal_key_handler_not_registered_witness:
  "3 < length (traversal scenario_string_key) \<and>
   v_node (visited scenario_string_key 3) =
     CallExpression (Identifier ''authenticatedQuery'')
       (ObjectExpression [Property (Identifier ''args'') (ObjectExpression []),
          Property (Literal ''handler'') (handler_of await_call)] # []) \<and>
   [Property (Identifier ''args'') (ObjectExpression []),
    Property (Literal ''handler'') (handler_of await_call)] ! 1 =
     Property (Literal ''handler'') (handler_of await_call) \<and>
   [1, 0, 1, 1, 1] =
     value_addr (property_addr (argument_addr (v_addr (visited scenario_string_key 3)) 0) 1) \<and>
   17 < length (traversal scenario_string_key) \<and>
   v_node (visited scenario_string_key 17) = forbidden_chain \<and>
   is_callee (visited scenario_string_key 17) \<and>
   enclosing_functions (visited scenario_string_key 17) = [[1, 0, 1, 1, 1]] \<and>
   [1, 0, 1, 1, 1] \<notin>
     authenticatedHandlerFunctions (stateB_at ''convex/notes.ts'' scenario_string_key 17) \<and>
   \<not> (\<exists>m. \<lparr>d_node = v_addr (visited scenario_string_key 17), d_messageId = m\<rparr>
              \<in> set (ruleB ''convex/notes.ts'' scenario_string_key))"
proof -
  have i: "3 < length (traversal scenario_string_key)" by code_simp
  have call: "v_node (visited scenario_string_key 3) =
     CallExpression (Identifier ''authenticatedQuery'')
       (ObjectExpression [Property (Identifier ''args'') (ObjectExpression []),
          Property (Literal ''handler'') (handler_of await_call)] # [])" by code_simp
  have key: "[Property (Identifier ''args'') (ObjectExpression []),
    Property (Literal ''handler'') (handler_of await_call)] ! 1 =
     Property (Literal ''handler'') (handler_of await_call)" by simp
  have h: "[1, 0, 1, 1, 1] =
     value_addr (property_addr (argument_addr (v_addr (visited scenario_string_key 3)) 0) 1)"
    by code_simp
  have k: "17 < length (traversal scenario_string_key)" by code_simp
  have n: "v_node (visited scenario_string_key 17) = forbidden_chain" by code_simp
  have c: "is_callee (visited scenario_string_key 17)" by code_simp
  have e: "enclosing_functions (visited scenario_string_key 17) = [[1, 0, 1, 1, 1]]"
    by code_simp
  note t = literal_key_handler_not_registered [OF i call key h k, of "''convex/notes.ts''"]
  from t k have nr: "[1, 0, 1, 1, 1] \<notin>
     authenticatedHandlerFunctions (stateB_at ''convex/notes.ts'' scenario_string_key 17)"
    by simp
  have nf: "\<not> (\<exists>m. \<lparr>d_node = v_addr (visited scenario_string_key 17), d_messageId = m\<rparr>
              \<in> set (ruleB ''convex/notes.ts'' scenario_string_key))"
  proof
    assume "\<exists>m. \<lparr>d_node = v_addr (visited scenario_string_key 17), d_messageId = m\<rparr>
              \<in> set (ruleB ''convex/notes.ts'' scenario_string_key)"
    with t obtain c where "c \<in> set (enclosing_functions (visited scenario_string_key 17))"
      "c \<noteq> [1, 0, 1, 1, 1]" by blast
    then show False unfolding e by simp
  qed
  from i call key h k n c e nr nf show ?thesis by simp
qed

text \<open>
  Claim C10 as stated fails in \<open>scenario_string_key_nested\<close>: the forbidden call stands
  inside a handler written under a string-literal key, and is reported, because that
  wrapper call itself stands inside a registered handler.
\<close>

theorem literal_key_handler_inside_registered_flagged:
  "v_node (visited scenario_string_key_nested 15) =
     CallExpression (Identifier ''authenticatedQuery'')
       [ObjectExpression [Property (Identifier ''args'') (ObjectExpression []),
          Property (Literal ''handler'') (handler_of await_call)]] \<and>
   value_addr (property_addr (argument_addr (v_addr (visited scenario_string_key_nested 15)) 0) 1)
     = [1, 0, 1, 1, 1, 1, 0, 0, 1, 1, 1] \<and>
   v_node (visited scenario_string_key_nested 29) = forbidden_chain \<and>
   is_callee (visited scenario_string_key_nested 29) \<and>
   enclosing_functions (visited scenario_string_key_nested 29) =
     [[1, 0, 1, 1, 1, 1, 0, 0, 1, 1, 1], [1, 0, 1, 1, 1]] \<and>
   ruleB ''convex/notes.ts'' scenario_string_key_nested =
     [\<lparr>d_node = v_addr (visited scenario_string_key_nested 29),
       d_messageId = useContextIdentity\<rparr>]"
proof -
  have c: "v_node (visited scenario_string_key_nested 15) =
     CallExpression (Identifier ''authenticatedQuery'')
       [ObjectExpression [Property (Identifier ''args'') (ObjectExpression []),
          Property (Literal ''handler'') (handler_of await_call)]]" by code_simp
  have h: "value_addr (property_addr (argument_addr
      (v_addr (visited scenario_string_key_nested 15)) 0) 1)
     = [1, 0, 1, 1, 1, 1, 0, 0, 1, 1, 1]" by code_simp
  have n: "v_node (visited scenario_string_key_nested 29) = forbidden_chain" by code_simp
  have ic: "is_callee (visited scenario_string_key_nested 29)" by code_simp
  have e: "enclosing_functions (visited scenario_string_key_nested 29) =
     [[1, 0, 1, 1, 1, 1, 0, 0, 1, 1, 1], [1, 0, 1, 1, 1]]" by code_simp
  have r: "ruleB ''convex/notes.ts'' scenario_string_key_nested =
     [\<lparr>d_node = v_addr (visited scenario_string_key_nested 29),
       d_messageId = useContextIdentity\<rparr>]" by code_simp
  from c h n ic e r show ?thesis by simp
qed

section \<open>Shapes the rules do not expect\<close>

lemma set_import_unmatched:
  assumes "matching_specifiers [''query'', ''mutation''] [sp] = []"
  shows "set_import sp st = st"
proof (cases sp)
  case (ImportSpecifier imported localName)
  with assms show ?thesis
    by (cases imported) (simp_all add: matching_specifiers_def split: if_splits)
qed simp_all

lemma matching_specifiers_Cons:
  assumes "matching_specifiers names (sp # sps) = []"
  shows "matching_specifiers names [sp] = []" and "matching_specifiers names sps = []"
  using assms by (simp_all add: matching_specifiers_def split: if_splits)

lemma fold_set_import_unmatched:
  assumes "matching_specifiers [''query'', ''mutation''] sps = []"
  shows "fold set_import sps st = st"
  using assms
proof (induction sps)
  case Nil
  show ?case by simp
next
  case (Cons sp sps)
  from matching_specifiers_Cons [OF Cons.prems] Cons.IH
  show ?case by (simp add: set_import_unmatched)
qed

lemma add_import_unmatched:
  assumes "matching_specifiers [''authenticatedQuery'', ''authenticatedMutation''] [sp] = []"
  shows "add_import sp st = st"
proof (cases sp)
  case (ImportSpecifier imported localName)
  with assms show ?thesis
    by (cases imported) (simp_all add: matching_specifiers_def split: if_splits)
qed simp_all

lemma fold_add_import_unmatched:
  assumes "matching_specifiers [''authenticatedQuery'', ''authenticatedMutation''] sps = []"
  shows "fold add_import sps st = st"
  using assms
proof (induction sps)
  case Nil
  show ?case by simp
next
  case (Cons sp sps)
  from matching_specifiers_Cons [OF Cons.prems] Cons.IH
  show ?case by (simp add: add_import_unmatched)
qed

lemma import_unmatched_A:
  assumes "matching_specifiers [''query'', ''mutation''] specifiers = []"
  shows "dispatch (create_A filename) (a, ImportDeclaration specifiers src, ps) st = st"
proof (cases "isAuthFile filename")
  case True
  then show ?thesis by (rule dispatch_A_exempt)
next
  case False
  show ?thesis
    unfolding dispatch_A [OF False] using assms by (simp add: fold_set_import_unmatched)
qed

lemma import_unmatched_B:
  assumes "matching_specifiers [''authenticatedQuery'', ''authenticatedMutation''] specifiers = []"
  shows "dispatch (create_B filename) (a, ImportDeclaration specifiers src, ps) st = st"
proof (cases "isAuthFile filename")
  case True
  then show ?thesis by (rule dispatch_B_exempt)
next
  case False
  show ?thesis
    unfolding dispatch_B [OF False] using assms by (simp add: fold_add_import_unmatched)
qed

lemma call_not_object_B:
  assumes "\<not> (\<exists>properties rest. args = ObjectExpression properties # rest)"
  shows "dispatch (create_B filename) (a, CallExpression callee args, ps) st = st"
proof (cases "isAuthFile filename")
  case True
  then show ?thesis by (rule dispatch_B_exempt)
next
  case False
  have "CallExpression_B st (a, CallExpression callee args, ps) = st"
    using assms by (intro CallExpression_B_other) simp
  then show ?thesis unfolding dispatch_B [OF False] by simp
qed

lemma find_from_handler:
  assumes "find_from is_handler_property i properties = Some (n, p)"
  shows "p \<in> set properties \<and> (\<exists>fn. p = Property (Identifier ''handler'') fn)"
proof -
  from find_from_Some [OF assms] have "p \<in> set properties" and h: "is_handler_property p"
    by (auto simp: in_set_conv_nth)
  from h have "\<exists>fn. p = Property (Identifier ''handler'') fn"
    by (rule is_handler_property.elims) simp_all
  with \<open>p \<in> set properties\<close> show ?thesis ..
qed

lemma call_no_function_B:
  assumes "\<forall>p\<in>set properties. \<forall>fn. p = Property (Identifier ''handler'') fn \<longrightarrow>
             \<not> is_function_literal fn"
  shows "dispatch (create_B filename)
           (a, CallExpression callee (ObjectExpression properties # rest), ps) st = st"
proof (cases "isAuthFile filename")
  case True
  then show ?thesis by (rule dispatch_B_exempt)
next
  case False
  let ?v = "(a, CallExpression callee (ObjectExpression properties # rest), ps)"
  have "CallExpression_B st ?v = st"
  proof (cases "\<exists>w. callee = Identifier w \<and> w \<in> authenticatedImports st")
    case False
    then show ?thesis by (intro CallExpression_B_other) simp
  next
    case True
    then obtain w where w: "callee = Identifier w" "w \<in> authenticatedImports st" by blast
    show ?thesis
    proof (cases "find_from is_handler_property 0 properties")
      case None
      with w show ?thesis by simp
    next
      case (Some e)
      obtain n p where e: "e = (n, p)" by (cases e)
      from find_from_handler [OF Some [unfolded e]] obtain fn where
        p: "p \<in> set properties" "p = Property (Identifier ''handler'') fn" by blast
      with assms have "\<not> is_function_literal fn" by blast
      with w Some e p(2) show ?thesis by simp
    qed
  qed
  then show ?thesis unfolding dispatch_B [OF False] by simp
qed


lemma dispatch_A_length:
  "length (reportsA (dispatch (create_A filename) v st)) \<le> Suc (length (reportsA st))"
proof (cases "isAuthFile filename")
  case True
  then show ?thesis by (simp add: dispatch_A_exempt)
next
  case False
  obtain a n ps where v: "v = (a, n, ps)" by (cases v)
  show ?thesis
    unfolding v dispatch_A [OF False]
    by (cases n)
      (simp_all only: node.case ImportDeclaration_A_reports CallExpression_A_reports, simp_all)
qed

lemma dispatch_B_length:
  "length (reportsB (dispatch (create_B filename) v st)) \<le> Suc (length (reportsB st))"
proof (cases "isAuthFile filename")
  case True
  then show ?thesis by (simp add: dispatch_B_exempt)
next
  case False
  obtain a n ps where v: "v = (a, n, ps)" by (cases v)
  show ?thesis
    unfolding v dispatch_B [OF False]
    by (cases n)
      (simp_all only: node.case ImportDeclaration_B_frame CallExpression_B_frame
        MemberExpression_B_reports, simp_all)
qed

lemma run_length:
  assumes "\<And>st v. length (reports (dispatch ls v st)) \<le> Suc (length (reports st))"
  shows "length (reports (run ls vs st)) \<le> length (reports st) + length vs"
proof (induction vs arbitrary: st)
  case Nil
  show ?case by (simp add: run_Nil)
next
  case (Cons v vs)
  have "length (reports (run ls vs (dispatch ls v st))) \<le>
        length (reports (dispatch ls v st)) + length vs" by (rule Cons.IH)
  also have "\<dots> \<le> Suc (length (reports st)) + length vs" using assms by simp
  finally show ?case by (simp add: run_Cons)
qed

lemma is_handler_property_reads:
  "is_handler_property_reads p = Inr (is_handler_property p)"
proof (cases p)
  case (Property k v)
  show ?thesis
    unfolding Property
    by (cases k) (simp_all add: is_handler_property_reads_def read_def and_also_def)
qed (simp_all add: is_handler_property_reads_def read_def and_also_def)

lemma find_reads:
  "find_reads is_handler_property_reads i xs = Inr (find_from is_handler_property i xs)"
  by (induction xs arbitrary: i) (simp_all add: is_handler_property_reads)

lemma is_function_literal_type:
  "(type_of n = T_ArrowFunctionExpression \<or> type_of n = T_FunctionExpression) =
   is_function_literal n"
  by (cases n) simp_all

lemma CallExpression_B_reads:
  "CallExpression_B_reads st v = Inr (CallExpression_B st v)"
proof -
  obtain a n ps where v: "v = (a, n, ps)" by (cases v)
  show ?thesis
  proof (cases n)
    case (CallExpression callee args)
    show ?thesis
    proof (cases callee)
      case (Identifier w)
      show ?thesis
      proof (cases "w \<in> authenticatedImports st")
        case False
        then show ?thesis unfolding v CallExpression Identifier by simp
      next
        case True
        show ?thesis
        proof (cases args)
          case Nil
          with True show ?thesis
            unfolding v CallExpression Identifier
            by (simp add: and_also_def read_def element_def)
        next
          case (Cons arg rest)
          show ?thesis
          proof (cases arg)
            case (ObjectExpression properties)
            show ?thesis
            proof (cases "find_from is_handler_property 0 properties")
              case None
              with True show ?thesis
                unfolding v CallExpression Identifier Cons ObjectExpression
                by (simp add: and_also_def read_def element_def find_reads)
            next
              case (Some e)
              obtain i p where e: "e = (i, p)" by (cases e)
              from find_from_Some [OF Some [unfolded e]] have "is_handler_property p" by simp
              then obtain k fn where p: "p = Property k fn"
                by (rule is_handler_property.elims) simp_all
              from True Some show ?thesis
                unfolding v CallExpression Identifier Cons ObjectExpression e p
                by (simp add: and_also_def read_def element_def find_reads
                    is_function_literal_type)
            qed
          qed (use True in \<open>simp_all add: v CallExpression Identifier Cons and_also_def
                 read_def element_def\<close>)
        qed
      qed
    qed (simp_all add: v CallExpression)
  qed (simp_all add: v)
qed

lemma add_import_reads: "add_import_reads sp st = Inr (add_import sp st)"
proof (cases sp)
  case (ImportSpecifier imported localName)
  show ?thesis
    unfolding ImportSpecifier
    by (cases imported) (simp_all add: add_import_reads_def read_def)
qed (simp_all add: add_import_reads_def)

lemma for_each_add_import:
  "for_each add_import_reads sps st = Inr (fold add_import sps st)"
  by (induction sps arbitrary: st) (simp_all add: add_import_reads)

lemma ImportDeclaration_B_reads:
  "ImportDeclaration_B_reads st v = Inr (ImportDeclaration_B st v)"
proof -
  obtain a n ps where v: "v = (a, n, ps)" by (cases v)
  show ?thesis unfolding v by (cases n) (simp_all add: for_each_add_import)
qed

text \<open>
  Claim C8. On the shapes the rules do not expect, a listener leaves its rule's
  variables and the reports as they are: an import declaration none of whose specifiers
  imports a name the rule looks for; a call whose first argument is missing or is not an
  object literal; a call whose object literal gives no function literal under
  \<^verbatim>\<open>handler\<close>. The pass over any tree ends with a report list, of at most one
  diagnostic per visited node and rule. No read of the two listeners that inspect these
  shapes faults: written read by read they return, on every node and state, what the
  listeners of the model return.
\<close>

theorem unexpected_shapes_degrade:
  "(matching_specifiers [''query'', ''mutation''] specifiers = [] \<longrightarrow>
      dispatch (create_A filename) (a, ImportDeclaration specifiers src, ps) stA = stA) \<and>
   (matching_specifiers [''authenticatedQuery'', ''authenticatedMutation''] specifiers = [] \<longrightarrow>
      dispatch (create_B filename) (a, ImportDeclaration specifiers src, ps) stB = stB) \<and>
   (\<not> (\<exists>properties rest. args = ObjectExpression properties # rest) \<longrightarrow>
      dispatch (create_B filename) (a, CallExpression callee args, ps) stB = stB) \<and>
   ((\<forall>p\<in>set properties. \<forall>fn. p = Property (Identifier ''handler'') fn \<longrightarrow>
        \<not> is_function_literal fn) \<longrightarrow>
      dispatch (create_B filename)
        (a, CallExpression callee (ObjectExpression properties # rest), ps) stB = stB) \<and>
   length (ruleA filename program) \<le> length (traversal program) \<and>
   length (ruleB filename program) \<le> length (traversal program) \<and>
   ImportDeclaration_B_reads stB v = Inr (ImportDeclaration_B stB v) \<and>
   CallExpression_B_reads stB v = Inr (CallExpression_B stB v)"
proof (intro conjI impI)
  show "ImportDeclaration_B_reads stB v = Inr (ImportDeclaration_B stB v)"
    by (rule ImportDeclaration_B_reads)
  show "CallExpression_B_reads stB v = Inr (CallExpression_B stB v)"
    by (rule CallExpression_B_reads)
  show "length (ruleA filename program) \<le> length (traversal program)"
    unfolding ruleA_def
    using run_length [of reportsA "create_A filename" "traversal program" initA,
        OF dispatch_A_length]
    by (simp add: initA_def)
  show "length (ruleB filename program) \<le> length (traversal program)"
    unfolding ruleB_def
    using run_length [of reportsB "create_B filename" "traversal program" initB,
        OF dispatch_B_length]
    by (simp add: initB_def)
next
  assume "matching_specifiers [''query'', ''mutation''] specifiers = []"
  then show "dispatch (create_A filename) (a, ImportDeclaration specifiers src, ps) stA = stA"
    by (rule import_unmatched_A)
next
  assume "matching_specifiers [''authenticatedQuery'', ''authenticatedMutation''] specifiers = []"
  then show "dispatch (create_B filename) (a, ImportDeclaration specifiers src, ps) stB = stB"
    by (rule import_unmatched_B)
next
  assume "\<not> (\<exists>properties rest. args = ObjectExpression properties # rest)"
  then show "dispatch (create_B filename) (a, CallExpression callee args, ps) stB = stB"
    by (rule call_not_object_B)
next
  assume "\<forall>p\<in>set properties. \<forall>fn. p = Property (Identifier ''handler'') fn \<longrightarrow>
        \<not> is_function_literal fn"
  then show "dispatch (create_B filename)
        (a, CallExpression callee (ObjectExpression properties # rest), ps) stB = stB"
    by (rule call_no_function_B)
qed


lemma visited_eq: "visited program k = (v_addr (visited program k), v_node (visited program k),
    v_parents (visited program k))"
  by (simp add: v_addr_def v_node_def v_parents_def)

text \<open>The pass over \<open>scenario_malformed\<close>, shape by shape.\<close>

theorem unexpected_shapes_degrade_witness:
  "matching_specifiers [''authenticatedQuery'', ''authenticatedMutation'']
     [ImportDefaultSpecifier ''auth''] = [] \<and>
   v_node (visited scenario_malformed 1) =
     ImportDeclaration [ImportDefaultSpecifier ''auth''] ''./auth'' \<and>
   stateB_at ''convex/notes.ts'' scenario_malformed 2 =
     stateB_at ''convex/notes.ts'' scenario_malformed 1 \<and>
   ''authenticatedQuery'' \<in> authenticatedImports (stateB_at ''convex/notes.ts'' scenario_malformed 4) \<and>
   v_node (visited scenario_malformed 4) =
     CallExpression (Identifier ''authenticatedQuery'') [Identifier ''config''] \<and>
   stateB_at ''convex/notes.ts'' scenario_malformed 5 =
     stateB_at ''convex/notes.ts'' scenario_malformed 4 \<and>
   v_node (visited scenario_malformed 8) =
     CallExpression (Identifier ''authenticatedQuery'')
       (ObjectExpression [Property (Identifier ''args'') (ObjectExpression []),
          Property (Identifier ''handler'') (Identifier ''makeHandler'')] # []) \<and>
   stateB_at ''convex/notes.ts'' scenario_malformed 9 =
     stateB_at ''convex/notes.ts'' scenario_malformed 8 \<and>
   v_node (visited scenario_malformed 18) =
     CallExpression (Identifier ''authenticatedQuery'') [] \<and>
   stateB_at ''convex/notes.ts'' scenario_malformed 19 =
     stateB_at ''convex/notes.ts'' scenario_malformed 18 \<and>
   ruleA ''convex/notes.ts'' scenario_malformed = [] \<and>
   ruleB ''convex/notes.ts'' scenario_malformed = [] \<and>
   length (ruleB ''convex/notes.ts'' scenario_malformed) \<le> length (traversal scenario_malformed)"
proof -
  let ?f = "''convex/notes.ts''"
  let ?S = scenario_malformed
  note t = unexpected_shapes_degrade [where filename = ?f and program = ?S]
  have len: "1 < length (traversal ?S)" "4 < length (traversal ?S)" "8 < length (traversal ?S)"
    "18 < length (traversal ?S)" by code_simp+
  have m: "matching_specifiers [''authenticatedQuery'', ''authenticatedMutation'']
     [ImportDefaultSpecifier ''auth''] = []" by code_simp
  have n1: "v_node (visited ?S 1) = ImportDeclaration [ImportDefaultSpecifier ''auth''] ''./auth''"
    by code_simp
  have "stateB_at ?f ?S (Suc 1) = stateB_at ?f ?S 1"
    unfolding stateB_at_Suc [OF len(1)]
    by (subst visited_eq, unfold n1) (use t m in blast)
  then have s1: "stateB_at ?f ?S 2 = stateB_at ?f ?S 1" by (simp add: numeral_2_eq_2)
  have w: "''authenticatedQuery'' \<in> authenticatedImports (stateB_at ?f ?S 4)" by code_simp
  have n4: "v_node (visited ?S 4) =
     CallExpression (Identifier ''authenticatedQuery'') [Identifier ''config'']" by code_simp
  have "stateB_at ?f ?S (Suc 4) = stateB_at ?f ?S 4"
    unfolding stateB_at_Suc [OF len(2)]
    by (subst visited_eq, unfold n4) (rule t [THEN conjunct2, THEN conjunct2, THEN conjunct1, rule_format], simp)
  then have s4: "stateB_at ?f ?S 5 = stateB_at ?f ?S 4" by simp
  have n8: "v_node (visited ?S 8) =
     CallExpression (Identifier ''authenticatedQuery'')
       (ObjectExpression [Property (Identifier ''args'') (ObjectExpression []),
          Property (Identifier ''handler'') (Identifier ''makeHandler'')] # [])" by code_simp
  have "stateB_at ?f ?S (Suc 8) = stateB_at ?f ?S 8"
    unfolding stateB_at_Suc [OF len(3)]
    by (subst visited_eq, unfold n8)
      (rule t [THEN conjunct2, THEN conjunct2, THEN conjunct2, THEN conjunct1, rule_format], simp)
  then have s8: "stateB_at ?f ?S 9 = stateB_at ?f ?S 8" by simp
  have n18: "v_node (visited ?S 18) = CallExpression (Identifier ''authenticatedQuery'') []"
    by code_simp
  have "stateB_at ?f ?S (Suc 18) = stateB_at ?f ?S 18"
    unfolding stateB_at_Suc [OF len(4)]
    by (subst visited_eq, unfold n18) (rule t [THEN conjunct2, THEN conjunct2, THEN conjunct1, rule_format], simp)
  then have s18: "stateB_at ?f ?S 19 = stateB_at ?f ?S 18" by simp
  have ra: "ruleA ?f ?S = []" by code_simp
  have rb: "ruleB ?f ?S = []" by code_simp
  from t have l: "length (ruleB ?f ?S) \<le> length (traversal ?S)" by blast
  show ?thesis by (intro conjI) (rule m n1 s1 w n4 s4 n8 s8 n18 s18 ra rb l)+
qed

section \<open>The wrappers guard their handlers\<close>

lemma authenticated_guards: "guards h (authenticated h)"
  unfolding guards_def authenticated_def by simp

text \<open>
  Claim C9, as amended. For every definition given to \<^verbatim>\<open>authenticatedQuery\<close> or
  \<^verbatim>\<open>authenticatedMutation\<close>, the object handed to \<^verbatim>\<open>query\<close> or \<^verbatim>\<open>mutation\<close> keeps the
  \<^verbatim>\<open>args\<close> and has a handler that \<open>guards\<close> the handler of the definition: it resolves
  the identity first; on \<^verbatim>\<open>null\<close>, and on every other value that converts to
  \<^verbatim>\<open>false\<close>, it throws \<^verbatim>\<open>Error('Not authenticated')\<close>, the outcome not depending on
  the user's handler, which is not run; on every other value it returns what the user's
  handler returns on the context extended by that value.
\<close>

theorem wrapped_handler_requires_truthy_identity:
  "\<exists>rq rm.
     authenticatedQuery (createAuthenticatedMethods opts) dq = query opts rq \<and>
     def_args rq = def_args dq \<and>
     guards (def_handler dq) (def_handler rq) \<and>
     authenticatedMutation (createAuthenticatedMethods opts) dm = mutation opts rm \<and>
     def_args rm = def_args dm \<and>
     guards (def_handler dm) (def_handler rm)"
  unfolding createAuthenticatedMethods_def
  by (intro exI [of _ "\<lparr>def_args = def_args dq, def_returns = def_returns dq,
           def_handler = authenticated (def_handler dq)\<rparr>"]
        exI [of _ "\<lparr>def_args = def_args dm, def_returns = def_returns dm,
           def_handler = authenticated (def_handler dm)\<rparr>"])
    (simp add: authenticated_guards)

text \<open>
  When \<^verbatim>\<open>getUserIdentity\<close> rejects or resolves to \<^verbatim>\<open>null\<close>, the world shows one call,
  of \<^verbatim>\<open>getUserIdentity\<close>; when it resolves to an identity object, the handler ran.
\<close>

theorem wrapped_handler_requires_truthy_identity_witness:
  "def_handler (authenticatedQuery (createAuthenticatedMethods example_options)
      example_definition) failing_ctx [()] 0 = (Inl (Error ''Auth service error''), 1) \<and>
   def_handler (authenticatedQuery (createAuthenticatedMethods example_options)
      example_definition) (example_ctx Null) [()] 0 = (Inl (Error ''Not authenticated''), 1) \<and>
   def_handler (authenticatedQuery (createAuthenticatedMethods example_options)
      example_definition) (example_ctx (Object ''alice'')) [()] 0 =
     (Inr (Object ''alice''), 11) \<and>
   def_handler (authenticatedMutation (createAuthenticatedMethods example_options)
      example_definition) failing_ctx [()] 0 = (Inl (Error ''Auth service error''), 1) \<and>
   def_handler (authenticatedMutation (createAuthenticatedMethods example_options)
      example_definition) (example_ctx Null) [()] 0 = (Inl (Error ''Not authenticated''), 1) \<and>
   def_handler (authenticatedMutation (createAuthenticatedMethods example_options)
      example_definition) (example_ctx (Object ''alice'')) [()] 0 =
     (Inr (Object ''alice''), 11)"
proof -
  from wrapped_handler_requires_truthy_identity
    [of example_options example_definition example_definition]
  obtain rq rm where
    q: "authenticatedQuery (createAuthenticatedMethods example_options) example_definition =
        query example_options rq"
    and gq: "guards (def_handler example_definition) (def_handler rq)"
    and m: "authenticatedMutation (createAuthenticatedMethods example_options)
        example_definition = mutation example_options rm"
    and gm: "guards (def_handler example_definition) (def_handler rm)"
    by blast
  have failing: "getUserIdentity (auth failing_ctx) 0 = (Inl (Error ''Auth service error''), 1)"
    by (simp add: failing_ctx_def)
  have null: "getUserIdentity (auth (example_ctx Null)) 0 = (Inr Null, 1)"
    by (simp add: example_ctx_def)
  have falsy: "\<not> ToBoolean (Null :: string js_value)"
    by simp
  have alice: "getUserIdentity (auth (example_ctx (Object ''alice''))) 0 =
      (Inr (Object ''alice''), 1)"
    by (simp add: example_ctx_def)
  have truthy: "ToBoolean (Object ''alice'')"
    by simp
  have user: "def_handler example_definition
      (with_identity (example_ctx (Object ''alice'')) (Object ''alice''))
      (first_arg [()]) 1 = (Inr (Object ''alice''), 11)"
    by (simp add: example_definition_def with_identity_def)
  have "def_handler rq failing_ctx [()] 0 = (Inl (Error ''Auth service error''), 1)"
    using gq failing unfolding guards_def by blast
  moreover have "def_handler rq (example_ctx Null) [()] 0 =
      (Inl (Error ''Not authenticated''), 1)"
    using gq null falsy unfolding guards_def by blast
  moreover have "def_handler rq (example_ctx (Object ''alice'')) [()] 0 =
      (Inr (Object ''alice''), 11)"
    using gq alice truthy user unfolding guards_def by metis
  moreover have "def_handler rm failing_ctx [()] 0 = (Inl (Error ''Auth service error''), 1)"
    using gm failing unfolding guards_def by blast
  moreover have "def_handler rm (example_ctx Null) [()] 0 =
      (Inl (Error ''Not authenticated''), 1)"
    using gm null falsy unfolding guards_def by blast
  moreover have "def_handler rm (example_ctx (Object ''alice'')) [()] 0 =
      (Inr (Object ''alice''), 11)"
    using gm alice truthy user unfolding guards_def by metis
  ultimately show ?thesis
    unfolding q m by (simp add: example_options_def)
qed

text \<open>
  Claim C9 as stated fails when \<^verbatim>\<open>getUserIdentity\<close> resolves to \<^verbatim>\<open>undefined\<close>, as in the
  tests of the repository, or to the empty string: the value is not \<^verbatim>\<open>null\<close>, yet both
  wrapped handlers throw \<^verbatim>\<open>Error('Not authenticated')\<close> and the world shows that the
  user's handler did not run. Run on the context extended by that value, the user's
  handler would have returned it.
\<close>

theorem undefined_identity_rejected:
  "getUserIdentity (auth (example_ctx Undefined)) 0 = (Inr Undefined, 1) \<and>
   Undefined \<noteq> (Null :: string js_value) \<and>
   def_handler (authenticatedQuery (createAuthenticatedMethods example_options)
      example_definition) (example_ctx Undefined) [()] 0 =
     (Inl (Error ''Not authenticated''), 1) \<and>
   def_handler (authenticatedMutation (createAuthenticatedMethods example_options)
      example_definition) (example_ctx Undefined) [()] 0 =
     (Inl (Error ''Not authenticated''), 1) \<and>
   def_handler example_definition (with_identity (example_ctx Undefined) Undefined)
     (first_arg [()]) 1 = (Inr Undefined, 11) \<and>
   getUserIdentity (auth (example_ctx (String ''''))) 0 = (Inr (String ''''), 1) \<and>
   String '''' \<noteq> (Null :: string js_value) \<and>
   def_handler (authenticatedQuery (createAuthenticatedMethods example_options)
      example_definition) (example_ctx (String '''')) [()] 0 =
     (Inl (Error ''Not authenticated''), 1) \<and>
   def_handler (authenticatedMutation (createAuthenticatedMethods example_options)
      example_definition) (example_ctx (String '''')) [()] 0 =
     (Inl (Error ''Not authenticated''), 1) \<and>
   def_handler example_definition (with_identity (example_ctx (String '''')) (String ''''))
     (first_arg [()]) 1 = (Inr (String ''''), 11)"
  by (simp add: createAuthenticatedMethods_def example_options_def example_definition_def
      example_ctx_def authenticated_def with_identity_def first_arg_def)

end
